theory Spec2Isabelle
  imports Main "HOL-Library.Monad_Syntax"
begin

section \<open>Data model\<close>

text \<open>
  The stage of \<^verbatim>\<open>TriggerGenericMaker.hpp\<close>: a module \<^verbatim>\<open>TriggerGenericMaker<IN, OUT, MAKER>\<close>
  that owns the counters, the queues and the algorithm, and a worker
  \<^verbatim>\<open>TriggerGenericWorker<IN, OUT, MAKER>\<close> with three bodies: the base template
  (input \<open>A\<close>, output \<open>B\<close>), the specialisation for \<open>Set<A>\<close> to \<open>Set<B>\<close> and the
  specialisation for \<open>Set<A>\<close> to \<open>B\<close>.

  Timestamps (\<^verbatim>\<open>timestamp_t\<close>, 64 bit unsigned) are only compared by the driver, never
  added or multiplied. The counters (\<^verbatim>\<open>size_t\<close>, 64 bit) are set to zero by \<^verbatim>\<open>do_start\<close> and
  incremented by one for each message, so that one would wrap only after \<open>2 ^ 64\<close>
  messages of one run. Both are natural numbers here.

  Names are the source's, but for \<open>tset\<close> (\<^verbatim>\<open>Set\<close>), \<open>inp\<close> (\<^verbatim>\<open>in\<close>) and \<open>drop'\<close> (\<^verbatim>\<open>drop\<close>),
  and for the workers and their members, numbered by specialisation: 1 for the base
  template, 2 for \<open>Set<A>\<close> to \<open>B\<close>, 3 for \<open>Set<A>\<close> to \<open>Set<B>\<close>.
\<close>

type_synonym timestamp_t = nat

text \<open>
  Modelled from the spec: \<^verbatim>\<open>Set<T>\<close> and its \<^verbatim>\<open>Type\<close> (\<^verbatim>\<open>trigger/Set.hpp\<close> is not among the
  sources): the time-tagged envelope with the fields of the data model, \<open>type\<close> one of
  payload, heartbeat and unknown. The sequence number has the type of the counter it is
  assigned from; a fresh set has sequence number 0 and no objects. Of the origin
  (\<^verbatim>\<open>daqdataformats::SourceID\<close>) only the subsystem and the element id are kept.
\<close>

datatype Type = kUnknown | kPayload | kHeartbeat

datatype Subsystem = kUnknownSubsystem | kTrigger

record 'a tset =
  type :: Type
  start_time :: timestamp_t
  end_time :: timestamp_t
  origin :: "Subsystem \<times> nat"
  seqno :: nat
  objects :: "'a list"

text \<open>
  What the stage does to the outside: the issues it reports through \<^verbatim>\<open>ers\<close>, with their
  severity, the outputs the output queue accepted and the outputs dropped after a
  failed send. Every operation returns the list of its effects, in order.
\<close>

datatype severity = Warning | Error | Fatal

datatype issue =
    TimeoutExpired
  | AlgorithmFatalError
  | AlgorithmFailedToSend
  | OutOfOrderSets timestamp_t timestamp_t
  | UnknownSetError

datatype 'o event = Report severity issue | Sent 'o | Dropped 'o

text \<open>
  \<^verbatim>\<open>MAKER\<close>, the algorithm, is a template parameter. \<^verbatim>\<open>operator()(x, out_vec)\<close> and
  \<^verbatim>\<open>flush(end_time, out_vec)\<close> take the algorithm's state and return its new state, the
  elements they appended to \<^verbatim>\<open>out_vec\<close> and whether they threw (the elements appended
  before a throw stay in the vector). An algorithm only appends to the vector it is
  given: zero or more outputs for each call.
\<close>

record ('a, 'b, 'm) maker =
  mk_apply :: "'m \<Rightarrow> 'a \<Rightarrow> 'm \<times> 'b list \<times> bool"
  mk_flush :: "'m \<Rightarrow> timestamp_t \<Rightarrow> 'm \<times> 'b list \<times> bool"

text \<open>
  \<^verbatim>\<open>TimeSliceInputBuffer<A>\<close> and \<^verbatim>\<open>TimeSliceOutputBuffer<B>\<close> are not among the sources. The
  driver uses them through their operations only, so it is written over any
  implementation of them, given as the record of the operations on a buffer state;
  the operations are taken to return (they do not throw) and what they may log is not
  among the effects. \<^verbatim>\<open>buffer\<close> and \<^verbatim>\<open>flush\<close> of the input buffer return the new buffer
  and, when they return true, the time slice with its start and end time;
  \<^verbatim>\<open>flush\<close> of the output buffer returns the set it has filled in.
\<close>

record ('a, 'ib) in_buffer_ops =
  ib_buffer :: "'ib \<Rightarrow> 'a tset \<Rightarrow> 'ib \<times> ('a list \<times> timestamp_t \<times> timestamp_t) option"
  ib_flush :: "'ib \<Rightarrow> 'ib \<times> ('a list \<times> timestamp_t \<times> timestamp_t) option"

record ('b, 'ob) out_buffer_ops =
  ob_buffer :: "'ob \<Rightarrow> 'b list \<Rightarrow> 'ob"
  ob_buffer_heartbeat :: "'ob \<Rightarrow> 'b tset \<Rightarrow> 'ob"
  ob_ready :: "'ob \<Rightarrow> bool"
  ob_empty :: "'ob \<Rightarrow> bool"
  ob_flush :: "'ob \<Rightarrow> 'b tset \<times> 'ob"
  ob_reset :: "'ob \<Rightarrow> 'ob"
  ob_set_window_time :: "'ob \<Rightarrow> timestamp_t \<Rightarrow> 'ob"
  ob_set_buffer_time :: "'ob \<Rightarrow> timestamp_t \<Rightarrow> 'ob"

text \<open>
  The members of the module and of its worker. \<open>m_output_queue\<close> stands for the
  downstream queue: the outcomes of the coming calls of \<^verbatim>\<open>send\<close> (False: the queue
  stays full for \<^verbatim>\<open>m_queue_timeout\<close>); once the list is used up every send is accepted.
\<close>

record ('m, 'ib, 'ob) stage =
  m_received_count :: nat
  m_sent_count :: nat
  m_output_queue :: "bool list"
  m_sourceid :: nat
  m_buffer_time :: timestamp_t
  m_window_time :: timestamp_t
  m_maker :: 'm
  m_in_buffer :: 'ib
  m_out_buffer :: 'ob
  m_prev_start_time :: timestamp_t

section \<open>The module: send\<close>

text \<open>
  \<^verbatim>\<open>++m_sent_count\<close> is on \<^verbatim>\<open>size_t\<close> and wraps to 0 at \<open>2 ^ 64 - 1\<close>; here the counter is
  a natural number and does not. The two agree from \<^verbatim>\<open>do_start\<close>, which sets the counter
  to 0, for the first \<open>2 ^ 64\<close> accepted sets of a run, and the claims on sequence
  numbers are stated for the runs from \<^verbatim>\<open>do_start\<close>.
\<close>

definition send :: "'o \<Rightarrow> ('m, 'ib, 'ob) stage \<Rightarrow> bool \<times> 'o event list \<times> ('m, 'ib, 'ob) stage" where
  "send out st =
     (case m_output_queue st of
        [] \<Rightarrow> (True, [Sent out], st\<lparr>m_sent_count := m_sent_count st + 1\<rparr>)
      | ok # q \<Rightarrow>
          if ok then (True, [Sent out], st\<lparr>m_output_queue := q, m_sent_count := m_sent_count st + 1\<rparr>)
          else (False, [Report Warning TimeoutExpired], st\<lparr>m_output_queue := q\<rparr>))"

text \<open>
  \<^verbatim>\<open>if (!m_parent.send(std::move(out))) { ers::error(AlgorithmFailedToSend(...)); }\<close>:
  the send with the error its caller reports when it fails.
\<close>

definition send_or_drop :: "'o \<Rightarrow> ('m, 'ib, 'ob) stage \<Rightarrow> 'o event list \<times> ('m, 'ib, 'ob) stage" where
  "send_or_drop out st =
     (case send out st of
        (ok, tr, st') \<Rightarrow>
          if ok then (tr, st') else (tr @ [Report Error AlgorithmFailedToSend, Dropped out], st'))"

text \<open>
  \<^verbatim>\<open>while (out_vec.size()) { send(out_vec.back()) ...; out_vec.pop_back(); }\<close>
\<close>

function send_out_vec :: "'o list \<Rightarrow> ('m, 'ib, 'ob) stage \<Rightarrow> 'o event list \<times> ('m, 'ib, 'ob) stage" where
  "send_out_vec out_vec st =
     (if out_vec \<noteq> [] then
        (case send_or_drop (last out_vec) st of
           (tr1, st1) \<Rightarrow>
             (case send_out_vec (butlast out_vec) st1 of
                (tr2, st2) \<Rightarrow> (tr1 @ tr2, st2)))
      else ([], st))"
  by pat_completeness auto
termination
  by (relation "measure (\<lambda>(out_vec, st). length out_vec)") auto

declare send_out_vec.simps [simp del]

section \<open>The base template: input \<open>A\<close>, output \<open>B\<close>\<close>

definition process1 ::
  "('a, 'b, 'm) maker \<Rightarrow> 'a \<Rightarrow> ('m, 'ib, 'ob) stage \<Rightarrow> 'b event list \<times> ('m, 'ib, 'ob) stage" where
  "process1 mk inp st =
     (case mk_apply mk (m_maker st) inp of
        (m', out_vec, threw) \<Rightarrow>
          if threw then ([Report Fatal AlgorithmFatalError], st\<lparr>m_maker := m'\<rparr>)
          else send_out_vec out_vec (st\<lparr>m_maker := m'\<rparr>))"

definition drain1 :: "bool \<Rightarrow> ('m, 'ib, 'ob) stage \<Rightarrow> ('b event list \<times> ('m, 'ib, 'ob) stage) option" where
  "drain1 drop' st = Some ([], st)"

section \<open>process_slice (the same in both specialisations)\<close>

text \<open>
  The loop over the time slice, on the algorithm's state and \<^verbatim>\<open>out_vec\<close>; it returns at
  the first invocation that throws.
\<close>

fun process_slice ::
  "('a, 'b, 'm) maker \<Rightarrow> 'a list \<Rightarrow> 'm \<Rightarrow> 'b list \<Rightarrow> 'o event list \<times> 'm \<times> 'b list" where
  "process_slice mk [] m out_vec = ([], m, out_vec)"
| "process_slice mk (x # time_slice) m out_vec =
     (case mk_apply mk m x of
        (m', outs, threw) \<Rightarrow>
          if threw then ([Report Fatal AlgorithmFatalError], m', out_vec @ outs)
          else process_slice mk time_slice m' (out_vec @ outs))"

text \<open>
  What both specialisations do on a heartbeat with the result of \<^verbatim>\<open>m_in_buffer.flush\<close>:
  \<^verbatim>\<open>if (m_in_buffer.flush(time_slice, start_time, end_time)) {
    if (end_time > in.start_time) { ers::fatal(OutOfOrderSets(...)); }
    process_slice(time_slice, elems); }\<close>
\<close>

definition flush_slice ::
  "('a, 'b, 'm) maker \<Rightarrow> 'a tset \<Rightarrow> ('a list \<times> timestamp_t \<times> timestamp_t) option \<Rightarrow> 'm
     \<Rightarrow> 'o event list \<times> 'm \<times> 'b list" where
  "flush_slice mk inp flushed m =
     (case flushed of
        None \<Rightarrow> ([], m, [])
      | Some (time_slice, slice_start, slice_end) \<Rightarrow>
          (case process_slice mk time_slice m [] of
             (tr, m', out_vec) \<Rightarrow>
               ((if slice_end > start_time inp
                 then [Report Fatal (OutOfOrderSets slice_end (start_time inp))]
                 else []) @ tr, m', out_vec)))"

section \<open>The specialisation for input \<open>Set<A>\<close>, output \<open>B\<close>\<close>

definition process2 ::
  "('a, 'b, 'm) maker \<Rightarrow> ('a, 'ib) in_buffer_ops \<Rightarrow> 'a tset \<Rightarrow> ('m, 'ib, 'ob) stage
     \<Rightarrow> 'b event list \<times> ('m, 'ib, 'ob) stage" where
  "process2 mk ibo inp st =
     (case type inp of
        kPayload \<Rightarrow>
          (case ib_buffer ibo (m_in_buffer st) inp of
             (ib', None) \<Rightarrow> ([], st\<lparr>m_in_buffer := ib'\<rparr>)
           | (ib', Some (time_slice, slice_start, slice_end)) \<Rightarrow>
               (case process_slice mk time_slice (m_maker st) [] of
                  (tr1, m', out_vec) \<Rightarrow>
                    (case send_out_vec out_vec (st\<lparr>m_in_buffer := ib', m_maker := m'\<rparr>) of
                       (tr2, st2) \<Rightarrow> (tr1 @ tr2, st2))))
      | kHeartbeat \<Rightarrow>
          (case ib_flush ibo (m_in_buffer st) of
             (ib', flushed) \<Rightarrow>
               (case flush_slice mk inp flushed (m_maker st) of
                  (tr1, m1, out_vec) \<Rightarrow>
                    (case mk_flush mk m1 (end_time inp) of
                       (m2, outs, threw) \<Rightarrow>
                         if threw then
                           (tr1 @ [Report Fatal AlgorithmFatalError],
                            st\<lparr>m_in_buffer := ib', m_maker := m2\<rparr>)
                         else
                           (case send_out_vec (out_vec @ outs)
                                   (st\<lparr>m_in_buffer := ib', m_maker := m2\<rparr>) of
                              (tr2, st2) \<Rightarrow> (tr1 @ tr2, st2)))))
      | kUnknown \<Rightarrow>
          (case send_out_vec [] st of
             (tr2, st2) \<Rightarrow> (Report Error UnknownSetError # tr2, st2)))"

text \<open>
  The loop of \<^verbatim>\<open>drain\<close>:
  \<^verbatim>\<open>while (out_vec.size()) { if (!drop) { send ...; out_vec.pop_back(); } }\<close>.
  The loop need not end, so not returning is the value \<open>None\<close>.
\<close>

partial_function (option) drain2_loop ::
  "bool \<Rightarrow> 'b list \<Rightarrow> ('m, 'ib, 'ob) stage \<Rightarrow> ('b event list \<times> ('m, 'ib, 'ob) stage) option" where
  "drain2_loop drop' out_vec st =
     (if out_vec \<noteq> [] then
        (if \<not> drop' then
           (case send_or_drop (last out_vec) st of
              (tr1, st1) \<Rightarrow>
                do { (tr2, st2) \<leftarrow> drain2_loop drop' (butlast out_vec) st1;
                     Some (tr1 @ tr2, st2) })
         else drain2_loop drop' out_vec st)
      else Some ([], st))"

definition drain2 ::
  "('a, 'b, 'm) maker \<Rightarrow> ('a, 'ib) in_buffer_ops \<Rightarrow> bool \<Rightarrow> ('m, 'ib, 'ob) stage
     \<Rightarrow> ('b event list \<times> ('m, 'ib, 'ob) stage) option" where
  "drain2 mk ibo drop' st =
     (case ib_flush ibo (m_in_buffer st) of
        (ib', None) \<Rightarrow> Some ([], st\<lparr>m_in_buffer := ib'\<rparr>)
      | (ib', Some (time_slice, slice_start, slice_end)) \<Rightarrow>
          (case process_slice mk time_slice (m_maker st) [] of
             (tr1, m', out_vec) \<Rightarrow>
               do { (tr2, st2) \<leftarrow> drain2_loop drop' out_vec (st\<lparr>m_in_buffer := ib', m_maker := m'\<rparr>);
                    Some (tr1 @ tr2, st2) }))"

section \<open>The specialisation for input \<open>Set<A>\<close>, output \<open>Set<B>\<close>\<close>

definition reconfigure3 :: "('b, 'ob) out_buffer_ops \<Rightarrow> ('m, 'ib, 'ob) stage \<Rightarrow> ('m, 'ib, 'ob) stage" where
  "reconfigure3 obo st =
     st\<lparr>m_out_buffer :=
          ob_set_buffer_time obo
            (ob_set_window_time obo (m_out_buffer st) (m_window_time st)) (m_buffer_time st)\<rparr>"

definition reset3 :: "('b, 'ob) out_buffer_ops \<Rightarrow> ('m, 'ib, 'ob) stage \<Rightarrow> ('m, 'ib, 'ob) stage" where
  "reset3 obo st = st\<lparr>m_prev_start_time := 0, m_out_buffer := ob_reset obo (m_out_buffer st)\<rparr>"

text \<open>\<^verbatim>\<open>if (elems.size() > 0) { m_out_buffer.buffer(elems); }\<close>\<close>

definition buffer_elems ::
  "('b, 'ob) out_buffer_ops \<Rightarrow> 'b list \<Rightarrow> ('m, 'ib, 'ob) stage \<Rightarrow> ('m, 'ib, 'ob) stage" where
  "buffer_elems obo elems st =
     (if elems \<noteq> [] then st\<lparr>m_out_buffer := ob_buffer obo (m_out_buffer st) elems\<rparr> else st)"

text \<open>
  The body of the loop \<^verbatim>\<open>while (m_out_buffer.ready())\<close> of \<^verbatim>\<open>process\<close>: one window or
  heartbeat is taken from the output buffer, stamped with \<^verbatim>\<open>m_sent_count\<close> and the
  origin, and sent or skipped.
\<close>

definition emit_window ::
  "('b, 'ob) out_buffer_ops \<Rightarrow> ('m, 'ib, 'ob) stage \<Rightarrow> 'b tset event list \<times> ('m, 'ib, 'ob) stage" where
  "emit_window obo st =
     (case ob_flush obo (m_out_buffer st) of
        (flushed, ob') \<Rightarrow>
          (let out = flushed\<lparr>seqno := m_sent_count st, origin := (kTrigger, m_sourceid st)\<rparr>;
               st1 = st\<lparr>m_out_buffer := ob'\<rparr>
           in if type out = kHeartbeat then send_or_drop out st1
              else if type out = kPayload \<and> objects out \<noteq> [] then send_or_drop out st1
              else ([], st1)))"

partial_function (option) emit_windows ::
  "('b, 'ob) out_buffer_ops \<Rightarrow> ('m, 'ib, 'ob) stage
     \<Rightarrow> ('b tset event list \<times> ('m, 'ib, 'ob) stage) option" where
  "emit_windows obo st =
     (if ob_ready obo (m_out_buffer st) then
        (case emit_window obo st of
           (tr1, st1) \<Rightarrow>
             do { (tr2, st2) \<leftarrow> emit_windows obo st1;
                  Some (tr1 @ tr2, st2) })
      else Some ([], st))"

text \<open>The end of \<^verbatim>\<open>process\<close>, after the \<^verbatim>\<open>switch\<close>.\<close>

definition buffer_and_emit ::
  "('b, 'ob) out_buffer_ops \<Rightarrow> 'b list \<Rightarrow> ('m, 'ib, 'ob) stage
     \<Rightarrow> ('b tset event list \<times> ('m, 'ib, 'ob) stage) option" where
  "buffer_and_emit obo elems st = emit_windows obo (buffer_elems obo elems st)"

definition process3 ::
  "('a, 'b, 'm) maker \<Rightarrow> ('a, 'ib) in_buffer_ops \<Rightarrow> ('b, 'ob) out_buffer_ops \<Rightarrow> 'a tset
     \<Rightarrow> ('m, 'ib, 'ob) stage \<Rightarrow> ('b tset event list \<times> ('m, 'ib, 'ob) stage) option" where
  "process3 mk ibo obo inp st =
     (case type inp of
        kPayload \<Rightarrow>
          (let tr0 = (if m_prev_start_time st \<noteq> 0 \<and> start_time inp < m_prev_start_time st
                      then [Report Warning (OutOfOrderSets (m_prev_start_time st) (start_time inp))]
                      else []);
               st0 = st\<lparr>m_prev_start_time := start_time inp\<rparr>
           in case ib_buffer ibo (m_in_buffer st0) inp of
                (ib', None) \<Rightarrow> Some (tr0, st0\<lparr>m_in_buffer := ib'\<rparr>)
              | (ib', Some (time_slice, slice_start, slice_end)) \<Rightarrow>
                  (case process_slice mk time_slice (m_maker st0) [] of
                     (tr1, m', elems) \<Rightarrow>
                       do { (tr2, st2) \<leftarrow>
                              buffer_and_emit obo elems (st0\<lparr>m_in_buffer := ib', m_maker := m'\<rparr>);
                            Some (tr0 @ tr1 @ tr2, st2) }))
      | kHeartbeat \<Rightarrow>
          (case ib_flush ibo (m_in_buffer st) of
             (ib', flushed) \<Rightarrow>
               (case flush_slice mk inp flushed (m_maker st) of
                  (tr1, m1, elems) \<Rightarrow>
                    (let heartbeat = \<lparr>type = kHeartbeat, start_time = start_time inp,
                                      end_time = end_time inp, origin = (kTrigger, m_sourceid st),
                                      seqno = 0, objects = []\<rparr>;
                         ob1 = ob_buffer_heartbeat obo (m_out_buffer st) heartbeat
                     in case mk_flush mk m1 (end_time inp) of
                          (m2, outs, threw) \<Rightarrow>
                            if threw then
                              Some (tr1 @ [Report Fatal AlgorithmFatalError],
                                    st\<lparr>m_in_buffer := ib', m_out_buffer := ob1, m_maker := m2\<rparr>)
                            else
                              do { (tr2, st2) \<leftarrow>
                                     buffer_and_emit obo (elems @ outs)
                                       (st\<lparr>m_in_buffer := ib', m_out_buffer := ob1, m_maker := m2\<rparr>);
                                   Some (tr1 @ tr2, st2) })))
      | kUnknown \<Rightarrow>
          do { (tr2, st2) \<leftarrow> buffer_and_emit obo [] st;
               Some (Report Error UnknownSetError # tr2, st2) })"

text \<open>The body of the loop \<^verbatim>\<open>while (!m_out_buffer.empty())\<close> of \<^verbatim>\<open>drain\<close>.\<close>

definition drain_window ::
  "('b, 'ob) out_buffer_ops \<Rightarrow> bool \<Rightarrow> ('m, 'ib, 'ob) stage
     \<Rightarrow> 'b tset event list \<times> ('m, 'ib, 'ob) stage" where
  "drain_window obo drop' st =
     (case ob_flush obo (m_out_buffer st) of
        (flushed, ob') \<Rightarrow>
          (let out = flushed\<lparr>seqno := m_sent_count st, origin := (kTrigger, m_sourceid st)\<rparr>;
               st1 = st\<lparr>m_out_buffer := ob'\<rparr>
           in if type out = kHeartbeat then
                (if \<not> drop' then send_or_drop out st1 else ([], st1))
              else if type out = kPayload \<and> objects out \<noteq> [] then
                (if \<not> drop' then send_or_drop out st1 else ([], st1))
              else ([], st1)))"

partial_function (option) drain3_loop ::
  "('b, 'ob) out_buffer_ops \<Rightarrow> bool \<Rightarrow> ('m, 'ib, 'ob) stage
     \<Rightarrow> ('b tset event list \<times> ('m, 'ib, 'ob) stage) option" where
  "drain3_loop obo drop' st =
     (if \<not> ob_empty obo (m_out_buffer st) then
        (case drain_window obo drop' st of
           (tr1, st1) \<Rightarrow>
             do { (tr2, st2) \<leftarrow> drain3_loop obo drop' st1;
                  Some (tr1 @ tr2, st2) })
      else Some ([], st))"

definition drain3 ::
  "('a, 'b, 'm) maker \<Rightarrow> ('a, 'ib) in_buffer_ops \<Rightarrow> ('b, 'ob) out_buffer_ops \<Rightarrow> bool
     \<Rightarrow> ('m, 'ib, 'ob) stage \<Rightarrow> ('b tset event list \<times> ('m, 'ib, 'ob) stage) option" where
  "drain3 mk ibo obo drop' st =
     (case ib_flush ibo (m_in_buffer st) of
        (ib', None) \<Rightarrow> drain3_loop obo drop' (st\<lparr>m_in_buffer := ib'\<rparr>)
      | (ib', Some (time_slice, slice_start, slice_end)) \<Rightarrow>
          (case process_slice mk time_slice (m_maker st) [] of
             (tr1, m', elems) \<Rightarrow>
               do { (tr2, st2) \<leftarrow>
                      drain3_loop obo drop'
                        (buffer_elems obo elems (st\<lparr>m_in_buffer := ib', m_maker := m'\<rparr>));
                    Some (tr1 @ tr2, st2) }))"

section \<open>The module: receive, do_start, do_work\<close>

text \<open>
  The worker of a module: the four member functions \<^verbatim>\<open>do_work\<close>, \<^verbatim>\<open>do_start\<close> and
  \<^verbatim>\<open>do_configure\<close> call.
\<close>

record ('i, 'o, 's) worker =
  process :: "'i \<Rightarrow> 's \<Rightarrow> ('o event list \<times> 's) option"
  drain :: "bool \<Rightarrow> 's \<Rightarrow> ('o event list \<times> 's) option"
  reset :: "'s \<Rightarrow> 's"
  reconfigure :: "'s \<Rightarrow> 's"

definition worker1 :: "('a, 'b, 'm) maker \<Rightarrow> ('a, 'b, ('m, 'ib, 'ob) stage) worker" where
  "worker1 mk =
     \<lparr>process = (\<lambda>inp st. Some (process1 mk inp st)), drain = drain1,
      reset = (\<lambda>st. st), reconfigure = (\<lambda>st. st)\<rparr>"

definition worker2 ::
  "('a, 'b, 'm) maker \<Rightarrow> ('a, 'ib) in_buffer_ops \<Rightarrow> ('a tset, 'b, ('m, 'ib, 'ob) stage) worker" where
  "worker2 mk ibo =
     \<lparr>process = (\<lambda>inp st. Some (process2 mk ibo inp st)), drain = drain2 mk ibo,
      reset = (\<lambda>st. st), reconfigure = (\<lambda>st. st)\<rparr>"

definition worker3 ::
  "('a, 'b, 'm) maker \<Rightarrow> ('a, 'ib) in_buffer_ops \<Rightarrow> ('b, 'ob) out_buffer_ops
     \<Rightarrow> ('a tset, 'b tset, ('m, 'ib, 'ob) stage) worker" where
  "worker3 mk ibo obo =
     \<lparr>process = process3 mk ibo obo, drain = drain3 mk ibo obo,
      reset = reset3 obo, reconfigure = reconfigure3 obo\<rparr>"

text \<open>
  \<^verbatim>\<open>do_start\<close>: the counters are set to zero, the algorithm is made anew (\<open>m0\<close> is what
  \<^verbatim>\<open>make_maker\<close> returns; the source id and the windowing it may set are those of the
  state) and the worker is reconfigured.
\<close>

definition do_start ::
  "('i, 'o, ('m, 'ib, 'ob) stage) worker \<Rightarrow> 'm \<Rightarrow> ('m, 'ib, 'ob) stage \<Rightarrow> ('m, 'ib, 'ob) stage" where
  "do_start w m0 st = reconfigure w (st\<lparr>m_received_count := 0, m_sent_count := 0, m_maker := m0\<rparr>)"

text \<open>
  The input queue is the list of what the coming calls of \<^verbatim>\<open>m_input_queue->receive\<close> give:
  an input, or \<open>None\<close> when the call ends with \<^verbatim>\<open>TimeoutExpired\<close>; once the list is used
  up nothing arrives any more. \<^verbatim>\<open>receive\<close> returns the input (\<open>None\<close> for false) and the
  rest of the queue.
\<close>

definition receive ::
  "'i option list \<Rightarrow> ('m, 'ib, 'ob) stage \<Rightarrow> 'i option \<times> 'i option list \<times> ('m, 'ib, 'ob) stage" where
  "receive q st =
     (case q of
        [] \<Rightarrow> (None, [], st)
      | None # q' \<Rightarrow> (None, q', st)
      | Some inp # q' \<Rightarrow> (Some inp, q', st\<lparr>m_received_count := m_received_count st + 1\<rparr>))"

text \<open>\<^verbatim>\<open>while (receive(in)) { worker.process(in); }\<close>\<close>

function receive_loop ::
  "('i, 'o, ('m, 'ib, 'ob) stage) worker \<Rightarrow> 'i option list \<Rightarrow> ('m, 'ib, 'ob) stage
     \<Rightarrow> ('o event list \<times> 'i option list \<times> ('m, 'ib, 'ob) stage) option" where
  "receive_loop w q st =
     (case receive q st of
        (None, q', st') \<Rightarrow> Some ([], q', st')
      | (Some inp, q', st') \<Rightarrow>
          do { (tr1, st1) \<leftarrow> process w inp st';
               (tr2, q2, st2) \<leftarrow> receive_loop w q' st1;
               Some (tr1 @ tr2, q2, st2) })"
  by pat_completeness auto
termination
  by (relation "measure (\<lambda>(w, q, st). length q)")
     (auto simp: receive_def split: list.splits option.splits)

text \<open>
  What \<^verbatim>\<open>do_work\<close> does once the loop is left: \<^verbatim>\<open>worker.drain(true)\<close>, the log line,
  \<^verbatim>\<open>worker.reset()\<close>.
\<close>

definition leave_work ::
  "('i, 'o, ('m, 'ib, 'ob) stage) worker \<Rightarrow> 'i option list \<Rightarrow> ('m, 'ib, 'ob) stage
     \<Rightarrow> ('o event list \<times> 'i option list \<times> ('m, 'ib, 'ob) stage) option" where
  "leave_work w q st = do { (tr, st1) \<leftarrow> drain w True st; Some (tr, q, reset w st1) }"

text \<open>
  \<^verbatim>\<open>do_work\<close>. The list \<open>flags\<close> holds the values the coming calls of
  \<^verbatim>\<open>running_flag.load()\<close> give; once it is used up the flag is false (a stop arrives).
  The result has the effects, the inputs left in the queue and the final state.
\<close>

fun do_work ::
  "('i, 'o, ('m, 'ib, 'ob) stage) worker \<Rightarrow> bool list \<Rightarrow> 'i option list \<Rightarrow> ('m, 'ib, 'ob) stage
     \<Rightarrow> ('o event list \<times> 'i option list \<times> ('m, 'ib, 'ob) stage) option" where
  "do_work w [] q st = leave_work w q st"
| "do_work w (running # flags) q st =
     (if running then
        do { (tr1, q1, st1) \<leftarrow> receive_loop w q st;
             (tr2, q2, st2) \<leftarrow> do_work w flags q1 st1;
             Some (tr1 @ tr2, q2, st2) }
      else leave_work w q st)"

section \<open>The two buffers, after their description\<close>

text \<open>
  Modelled from the spec: the state of \<^verbatim>\<open>TimeSliceInputBuffer<A>\<close>
  (\<^verbatim>\<open>trigger/TimeSliceInputBuffer.hpp\<close> is not among the sources): nothing, or the slice in
  progress with its start time, its end time and the elements absorbed so far.
\<close>

type_synonym 'a TimeSliceInputBuffer = "(timestamp_t \<times> timestamp_t \<times> 'a list) option"

text \<open>
  Modelled from the spec: \<^verbatim>\<open>TimeSliceInputBuffer::flush\<close>, which is missing with its class:
  it forcibly emits whatever is buffered, sorted by the elements' \<open>time_start\<close>, and
  returns false if the buffer is empty.
\<close>

definition tsib_flush ::
  "('a \<Rightarrow> timestamp_t) \<Rightarrow> 'a TimeSliceInputBuffer
     \<Rightarrow> 'a TimeSliceInputBuffer \<times> ('a list \<times> timestamp_t \<times> timestamp_t) option" where
  "tsib_flush time_start b =
     (case b of
        None \<Rightarrow> (None, None)
      | Some (s, e, xs) \<Rightarrow> (None, Some (sort_key time_start xs, s, e)))"

text \<open>
  Modelled from the spec: \<^verbatim>\<open>TimeSliceInputBuffer::buffer\<close>, which is missing with its class:
  a slice is complete when an incoming set's start and end time differ from the buffered
  slice's; then the buffered slice is sorted by \<open>time_start\<close> and returned, and the new
  set is installed as the slice in progress. Otherwise the set is absorbed.
\<close>

definition tsib_buffer ::
  "('a \<Rightarrow> timestamp_t) \<Rightarrow> 'a TimeSliceInputBuffer \<Rightarrow> 'a tset
     \<Rightarrow> 'a TimeSliceInputBuffer \<times> ('a list \<times> timestamp_t \<times> timestamp_t) option" where
  "tsib_buffer time_start b inp =
     (case b of
        None \<Rightarrow> (Some (start_time inp, end_time inp, objects inp), None)
      | Some (s, e, xs) \<Rightarrow>
          if start_time inp = s \<and> end_time inp = e
          then (Some (s, e, xs @ objects inp), None)
          else (Some (start_time inp, end_time inp, objects inp),
                Some (sort_key time_start xs, s, e)))"

definition TimeSliceInputBuffer ::
  "('a \<Rightarrow> timestamp_t) \<Rightarrow> ('a, 'a TimeSliceInputBuffer) in_buffer_ops" where
  "TimeSliceInputBuffer time_start =
     \<lparr>ib_buffer = tsib_buffer time_start, ib_flush = tsib_flush time_start\<rparr>"

text \<open>
  Modelled from the spec: the state of \<^verbatim>\<open>TimeSliceOutputBuffer<B>\<close>
  (\<^verbatim>\<open>trigger/TimeSliceOutputBuffer.hpp\<close> is not among the sources): the two configured
  times, the watermark (the largest start time seen), the buffered elements and the
  queue of heartbeat markers.
\<close>

record 'b TimeSliceOutputBuffer =
  window_time :: timestamp_t
  buffer_time :: timestamp_t
  watermark :: timestamp_t
  buffered :: "'b list"
  heartbeats :: "'b tset list"

datatype next_out = Nothing | NextHeartbeat | NextWindow nat

text \<open>
  Modelled from the spec: what \<^verbatim>\<open>TimeSliceOutputBuffer::flush\<close> pops next: the earliest
  window that has elements (an element is in the window of index
  \<open>time_start div window_time\<close>; windows with no element are dropped) or the next queued
  heartbeat, whichever comes first in time; a window whose start time equals the
  heartbeat's comes first.
\<close>

definition tsob_next :: "('b \<Rightarrow> timestamp_t) \<Rightarrow> 'b TimeSliceOutputBuffer \<Rightarrow> next_out" where
  "tsob_next time_start b =
     (case buffered b of
        [] \<Rightarrow> (case heartbeats b of [] \<Rightarrow> Nothing | hb # hbs \<Rightarrow> NextHeartbeat)
      | x # xs \<Rightarrow>
          (let k = fold min (map (\<lambda>y. time_start y div window_time b) xs)
                     (time_start x div window_time b)
           in case heartbeats b of
                [] \<Rightarrow> NextWindow k
              | hb # hbs \<Rightarrow>
                  if k * window_time b \<le> start_time hb then NextWindow k else NextHeartbeat))"

text \<open>
  Modelled from the spec: \<^verbatim>\<open>TimeSliceOutputBuffer::ready\<close>: the next thing to pop is a
  heartbeat, or a window that is closed: the watermark has reached the window's end
  plus \<open>buffer_time\<close>.
\<close>

definition tsob_ready :: "('b \<Rightarrow> timestamp_t) \<Rightarrow> 'b TimeSliceOutputBuffer \<Rightarrow> bool" where
  "tsob_ready time_start b =
     (case tsob_next time_start b of
        Nothing \<Rightarrow> False
      | NextHeartbeat \<Rightarrow> True
      | NextWindow k \<Rightarrow> (k + 1) * window_time b + buffer_time b \<le> watermark b)"

text \<open>Modelled from the spec: \<^verbatim>\<open>TimeSliceOutputBuffer::empty\<close>.\<close>

definition tsob_empty :: "'b TimeSliceOutputBuffer \<Rightarrow> bool" where
  "tsob_empty b = (buffered b = [] \<and> heartbeats b = [])"

text \<open>
  Modelled from the spec: \<^verbatim>\<open>TimeSliceOutputBuffer::flush\<close>: the next window is popped as
  one payload set with its elements sorted by \<open>time_start\<close>, or the next heartbeat
  marker is popped. On an empty buffer the set given by the caller, a fresh one, is
  left as it is.
\<close>

definition tsob_flush ::
  "('b \<Rightarrow> timestamp_t) \<Rightarrow> 'b TimeSliceOutputBuffer \<Rightarrow> 'b tset \<times> 'b TimeSliceOutputBuffer" where
  "tsob_flush time_start b =
     (case tsob_next time_start b of
        Nothing \<Rightarrow>
          (\<lparr>type = kUnknown, start_time = 0, end_time = 0, origin = (kUnknownSubsystem, 0),
            seqno = 0, objects = []\<rparr>, b)
      | NextHeartbeat \<Rightarrow> (hd (heartbeats b), b\<lparr>heartbeats := tl (heartbeats b)\<rparr>)
      | NextWindow k \<Rightarrow>
          (\<lparr>type = kPayload, start_time = k * window_time b,
            end_time = (k + 1) * window_time b, origin = (kUnknownSubsystem, 0), seqno = 0,
            objects = sort_key time_start
                        (filter (\<lambda>y. time_start y div window_time b = k) (buffered b))\<rparr>,
           b\<lparr>buffered := filter (\<lambda>y. time_start y div window_time b \<noteq> k) (buffered b)\<rparr>))"

text \<open>
  Modelled from the spec: \<^verbatim>\<open>TimeSliceOutputBuffer::buffer\<close> and \<^verbatim>\<open>buffer_heartbeat\<close>: the
  elements, or the marker, are taken in and the watermark is raised to their start time.
\<close>

definition tsob_buffer ::
  "('b \<Rightarrow> timestamp_t) \<Rightarrow> 'b TimeSliceOutputBuffer \<Rightarrow> 'b list \<Rightarrow> 'b TimeSliceOutputBuffer" where
  "tsob_buffer time_start b xs =
     b\<lparr>buffered := buffered b @ xs, watermark := fold max (map time_start xs) (watermark b)\<rparr>"

definition tsob_buffer_heartbeat ::
  "'b TimeSliceOutputBuffer \<Rightarrow> 'b tset \<Rightarrow> 'b TimeSliceOutputBuffer" where
  "tsob_buffer_heartbeat b hb =
     b\<lparr>heartbeats := heartbeats b @ [hb], watermark := max (watermark b) (start_time hb)\<rparr>"

text \<open>Modelled from the spec: \<^verbatim>\<open>TimeSliceOutputBuffer::reset\<close>.\<close>

definition tsob_reset :: "'b TimeSliceOutputBuffer \<Rightarrow> 'b TimeSliceOutputBuffer" where
  "tsob_reset b = b\<lparr>buffered := [], heartbeats := [], watermark := 0\<rparr>"

definition TimeSliceOutputBuffer ::
  "('b \<Rightarrow> timestamp_t) \<Rightarrow> ('b, 'b TimeSliceOutputBuffer) out_buffer_ops" where
  "TimeSliceOutputBuffer time_start =
     \<lparr>ob_buffer = tsob_buffer time_start, ob_buffer_heartbeat = tsob_buffer_heartbeat,
      ob_ready = tsob_ready time_start, ob_empty = tsob_empty,
      ob_flush = tsob_flush time_start, ob_reset = tsob_reset,
      ob_set_window_time = (\<lambda>b t. b\<lparr>window_time := t\<rparr>),
      ob_set_buffer_time = (\<lambda>b t. b\<lparr>buffer_time := t\<rparr>)\<rparr>"

section \<open>Reading the effects\<close>

text \<open>The outputs the queue accepted, and the outputs handed to \<^verbatim>\<open>send\<close> (accepted or dropped).\<close>

fun sent :: "'o event list \<Rightarrow> 'o list" where
  "sent [] = []"
| "sent (Sent out # tr) = out # sent tr"
| "sent (e # tr) = sent tr"

fun offered :: "'o event list \<Rightarrow> 'o list" where
  "offered [] = []"
| "offered (Sent out # tr) = out # offered tr"
| "offered (Dropped out # tr) = out # offered tr"
| "offered (e # tr) = offered tr"

text \<open>
  In a run that has sent \<open>n\<close> sets so far, every set handed to \<^verbatim>\<open>send\<close> carries the
  number of sets sent before it.
\<close>

fun seqnos_from :: "nat \<Rightarrow> 'b tset event list \<Rightarrow> bool" where
  "seqnos_from n [] = True"
| "seqnos_from n (Sent out # tr) = (seqno out = n \<and> seqnos_from (Suc n) tr)"
| "seqnos_from n (Dropped out # tr) = (seqno out = n \<and> seqnos_from n tr)"
| "seqnos_from n (e # tr) = seqnos_from n tr"

text \<open>
  The outputs of the elements of a slice, one list for each invocation made (none is
  made after one that throws).
\<close>

fun slice_outputs :: "('a, 'b, 'm) maker \<Rightarrow> 'm \<Rightarrow> 'a list \<Rightarrow> 'b list list" where
  "slice_outputs mk m [] = []"
| "slice_outputs mk m (x # xs) =
     (case mk_apply mk m x of
        (m', outs, threw) \<Rightarrow> outs # (if threw then [] else slice_outputs mk m' xs))"

text \<open>
  Whether one of the invocations on the elements of a slice, made in order from the
  algorithm's state \<open>m\<close>, throws, and the state the algorithm is left in by the
  invocations made (none is made after one that throws).
\<close>

fun throws :: "('a, 'b, 'm) maker \<Rightarrow> 'm \<Rightarrow> 'a list \<Rightarrow> bool" where
  "throws mk m [] = False"
| "throws mk m (x # xs) =
     (case mk_apply mk m x of (m', outs, threw) \<Rightarrow> if threw then True else throws mk m' xs)"

fun maker_after :: "('a, 'b, 'm) maker \<Rightarrow> 'm \<Rightarrow> 'a list \<Rightarrow> 'm" where
  "maker_after mk m [] = m"
| "maker_after mk m (x # xs) =
     (case mk_apply mk m x of (m', outs, threw) \<Rightarrow> if threw then m' else maker_after mk m' xs)"

text \<open>
  The queue after one round of the receive loop: the inputs up to the first timeout are
  gone, and the timeout with them.
\<close>

fun after_round :: "'i option list \<Rightarrow> 'i option list" where
  "after_round [] = []"
| "after_round (None # q) = q"
| "after_round (Some inp # q) = after_round q"

text \<open>
  The numbering of a stretch of a run: the sets handed to \<^verbatim>\<open>send\<close> carry the count of
  sets sent before them, and the counter has advanced by the number of sets sent.
\<close>

definition stamped ::
  "('m, 'ib, 'ob) stage \<Rightarrow> 'b tset event list \<Rightarrow> ('m, 'ib, 'ob) stage \<Rightarrow> bool" where
  "stamped st tr st' =
     (seqnos_from (m_sent_count st) tr \<and> m_sent_count st' = m_sent_count st + length (sent tr))"

text \<open>What \<^verbatim>\<open>process\<close> and \<^verbatim>\<open>drain\<close> let through: a heartbeat, or a payload set with objects.\<close>

definition sendable :: "'b tset \<Rightarrow> bool" where
  "sendable out = (type out = kHeartbeat \<or> (type out = kPayload \<and> objects out \<noteq> []))"

section \<open>Stages to run\<close>

text \<open>
  Elements that are their own \<open>time_start\<close>; the identity algorithm, an algorithm with
  two outputs for each input, and an algorithm that throws on the element 0 and in
  every flush.
\<close>

definition identity_maker :: "(nat, nat, unit) maker" where
  "identity_maker = \<lparr>mk_apply = (\<lambda>m x. (m, [x], False)), mk_flush = (\<lambda>m t. (m, [], False))\<rparr>"

definition twice_maker :: "(nat, nat, unit) maker" where
  "twice_maker = \<lparr>mk_apply = (\<lambda>m x. (m, [x, x + 1], False)), mk_flush = (\<lambda>m t. (m, [], False))\<rparr>"

definition throwing_maker :: "(nat, nat, unit) maker" where
  "throwing_maker = \<lparr>mk_apply = (\<lambda>m x. (m, [x], x = 0)), mk_flush = (\<lambda>m t. (m, [], True))\<rparr>"

text \<open>
  An algorithm that throws on the element 5 and never in a flush, and one that throws in
  every flush and never on an element.
\<close>

definition apply_throwing_maker :: "(nat, nat, unit) maker" where
  "apply_throwing_maker =
     \<lparr>mk_apply = (\<lambda>m x. (m, [x], x = 5)), mk_flush = (\<lambda>m t. (m, [], False))\<rparr>"

definition flush_throwing_maker :: "(nat, nat, unit) maker" where
  "flush_throwing_maker =
     \<lparr>mk_apply = (\<lambda>m x. (m, [x], False)), mk_flush = (\<lambda>m t. (m, [], True))\<rparr>"

definition stage0 :: "(unit, nat TimeSliceInputBuffer, nat TimeSliceOutputBuffer) stage" where
  "stage0 =
     \<lparr>m_received_count = 0, m_sent_count = 0, m_output_queue = [], m_sourceid = 7,
      m_buffer_time = 0, m_window_time = 100, m_maker = (), m_in_buffer = None,
      m_out_buffer = \<lparr>window_time = 100, buffer_time = 0, watermark = 0, buffered = [],
                      heartbeats = []\<rparr>,
      m_prev_start_time = 0\<rparr>"

definition payload :: "timestamp_t \<Rightarrow> timestamp_t \<Rightarrow> nat list \<Rightarrow> nat tset" where
  "payload s e xs =
     \<lparr>type = kPayload, start_time = s, end_time = e, origin = (kUnknownSubsystem, 0),
      seqno = 0, objects = xs\<rparr>"

definition heartbeat :: "timestamp_t \<Rightarrow> timestamp_t \<Rightarrow> nat tset" where
  "heartbeat s e =
     \<lparr>type = kHeartbeat, start_time = s, end_time = e, origin = (kUnknownSubsystem, 0),
      seqno = 0, objects = []\<rparr>"

text \<open>
  The stage after the payload sets \<open>[0, 50)\<close> with 10 and 20 and \<open>[50, 100)\<close> with 60: half
  a window in the output buffer, one slice in the input buffer. And a stage whose
  output buffer holds one heartbeat marker.
\<close>

definition stage_s5 :: "(unit, nat TimeSliceInputBuffer, nat TimeSliceOutputBuffer) stage" where
  "stage_s5 =
     stage0\<lparr>m_received_count := 2, m_prev_start_time := 50, m_in_buffer := Some (50, 100, [60]),
            m_out_buffer := \<lparr>window_time = 100, buffer_time = 0, watermark = 20,
                              buffered = [10, 20], heartbeats = []\<rparr>\<rparr>"

definition stage_hb :: "(unit, nat TimeSliceInputBuffer, nat TimeSliceOutputBuffer) stage" where
  "stage_hb =
     stage0\<lparr>m_out_buffer := \<lparr>window_time = 100, buffer_time = 0, watermark = 400, buffered = [],
                              heartbeats = [\<lparr>type = kHeartbeat, start_time = 400, end_time = 450,
                                             origin = (kTrigger, 7), seqno = 0, objects = []\<rparr>]\<rparr>\<rparr>"

text \<open>
  What the output buffer of the description holds, counted: the measure of the two loops
  over it.
\<close>

definition tsob_size :: "'b TimeSliceOutputBuffer \<Rightarrow> nat" where
  "tsob_size b = length (buffered b) + length (heartbeats b)"

section \<open>Evaluation and effects\<close>

lemmas eval_defs = worker3_def worker2_def worker1_def do_start_def reconfigure3_def reset3_def leave_work_def
  receive_def process3_def buffer_and_emit_def buffer_elems_def emit_window_def
  drain3_def drain_window_def send_or_drop_def send_def flush_slice_def
  process2_def process1_def drain2_def drain1_def
  TimeSliceInputBuffer_def tsib_flush_def tsib_buffer_def
  TimeSliceOutputBuffer_def tsob_next_def tsob_ready_def tsob_empty_def tsob_flush_def
  tsob_buffer_def tsob_buffer_heartbeat_def tsob_reset_def
  identity_maker_def twice_maker_def throwing_maker_def apply_throwing_maker_def
  flush_throwing_maker_def stage0_def payload_def heartbeat_def Let_def
  emit_windows.simps drain3_loop.simps

lemma sent_append: "sent (tr1 @ tr2) = sent tr1 @ sent tr2"
  by (induction tr1 rule: sent.induct) auto

lemma offered_append: "offered (tr1 @ tr2) = offered tr1 @ offered tr2"
  by (induction tr1 rule: offered.induct) auto

lemma seqnos_from_append:
  "seqnos_from n (tr1 @ tr2) = (seqnos_from n tr1 \<and> seqnos_from (n + length (sent tr1)) tr2)"
  by (induction n tr1 rule: seqnos_from.induct) auto

lemma seqnos_from_sent: "seqnos_from n tr \<Longrightarrow> map seqno (sent tr) = [n ..< n + length (sent tr)]"
  by (induction n tr rule: seqnos_from.induct) (auto simp: upt_rec)

lemma stamped_Nil: "m_sent_count st' = m_sent_count st \<Longrightarrow> stamped st [] st'"
  by (simp add: stamped_def)

lemma stamped_trans: "stamped st tr1 st1 \<Longrightarrow> stamped st1 tr2 st2 \<Longrightarrow> stamped st (tr1 @ tr2) st2"
  by (simp add: stamped_def seqnos_from_append sent_append)

lemma send_or_drop_stamped:
  "seqno out = m_sent_count st \<Longrightarrow> send_or_drop out st = (tr, st') \<Longrightarrow> stamped st tr st'"
  by (auto simp: send_or_drop_def send_def stamped_def split: list.splits if_splits)

lemma emit_windows_rule:
  assumes run: "emit_windows obo st = Some (tr, st')"
    and step: "\<And>st tr st'. emit_window obo st = (tr, st') \<Longrightarrow> R st tr st'"
    and none: "\<And>st. R st [] st"
    and trans: "\<And>st tr1 st1 tr2 st2. R st tr1 st1 \<Longrightarrow> R st1 tr2 st2 \<Longrightarrow> R st (tr1 @ tr2) st2"
  shows "R st tr st'"
proof -
  have "emit_windows obo' st = Some r \<Longrightarrow> obo' = obo \<longrightarrow> R st (fst r) (snd r)" for r obo'
  proof (erule emit_windows.raw_induct [rotated], goal_cases)
    case (1 loop obo' st r)
    show ?case
    proof (intro impI, cases "ob_ready obo' (m_out_buffer st)")
      case True
      assume eq: "obo' = obo"
      obtain tr1 st1 where w: "emit_window obo' st = (tr1, st1)" by force
      with True 1(2) obtain tr2 st2 where l: "loop obo' st1 = Some (tr2, st2)"
        and r: "r = (tr1 @ tr2, st2)"
        by (auto split: Option.bind_splits)
      from 1(1) [OF l] eq step [of st tr1 st1] w show "R st (fst r) (snd r)"
        by (simp add: r trans)
    next
      case False
      with 1(2) show "R st (fst r) (snd r)" by (auto simp: none)
    qed
  qed
  with run show ?thesis by fastforce
qed

lemma drain3_loop_rule:
  assumes run: "drain3_loop obo drop' st = Some (tr, st')"
    and step: "\<And>st tr st'. drain_window obo drop' st = (tr, st') \<Longrightarrow> R st tr st'"
    and none: "\<And>st. R st [] st"
    and trans: "\<And>st tr1 st1 tr2 st2. R st tr1 st1 \<Longrightarrow> R st1 tr2 st2 \<Longrightarrow> R st (tr1 @ tr2) st2"
  shows "R st tr st'"
proof -
  have "drain3_loop obo' d st = Some r \<Longrightarrow> obo' = obo \<and> d = drop' \<longrightarrow> R st (fst r) (snd r)"
    for r obo' d
  proof (erule drain3_loop.raw_induct [rotated], goal_cases)
    case (1 loop obo' d st r)
    show ?case
    proof (intro impI, cases "ob_empty obo' (m_out_buffer st)")
      case False
      assume eq: "obo' = obo \<and> d = drop'"
      obtain tr1 st1 where w: "drain_window obo' d st = (tr1, st1)" by force
      with False 1(2) obtain tr2 st2 where l: "loop obo' d st1 = Some (tr2, st2)"
        and r: "r = (tr1 @ tr2, st2)"
        by (auto split: Option.bind_splits)
      from 1(1) [OF l] eq step [of st tr1 st1] w show "R st (fst r) (snd r)"
        by (simp add: r trans)
    next
      case True
      with 1(2) show "R st (fst r) (snd r)" by (auto simp: none)
    qed
  qed
  with run show ?thesis by fastforce
qed

lemma emit_window_stamped: "emit_window obo st = (tr, st') \<Longrightarrow> stamped st tr st'"
  by (auto simp: emit_window_def Let_def stamped_def send_or_drop_def send_def
           split: prod.splits if_splits list.splits)

lemma drain_window_stamped: "drain_window obo drop' st = (tr, st') \<Longrightarrow> stamped st tr st'"
  by (auto simp: drain_window_def Let_def stamped_def send_or_drop_def send_def
           split: prod.splits if_splits list.splits)

lemma emit_windows_stamped: "emit_windows obo st = Some (tr, st') \<Longrightarrow> stamped st tr st'"
  by (erule emit_windows_rule) (auto intro: emit_window_stamped stamped_trans simp: stamped_Nil)

lemma drain3_loop_stamped: "drain3_loop obo drop' st = Some (tr, st') \<Longrightarrow> stamped st tr st'"
  by (erule drain3_loop_rule) (auto intro: drain_window_stamped stamped_trans simp: stamped_Nil)

lemma process_slice_reports:
  "process_slice mk xs m out_vec = (tr, m', out_vec') \<Longrightarrow> offered tr = []"
  by (induction xs arbitrary: m out_vec) (auto split: prod.splits if_splits)

lemma flush_slice_reports:
  "flush_slice mk inp flushed m = (tr, m', out_vec) \<Longrightarrow> offered tr = []"
  by (auto simp: flush_slice_def offered_append split: option.splits prod.splits if_splits
           dest: process_slice_reports)

lemma not_offered_sent: "offered tr = [] \<Longrightarrow> sent tr = []"
  by (induction tr rule: offered.induct) auto

lemma not_offered_seqnos: "offered tr = [] \<Longrightarrow> seqnos_from n tr"
  by (induction tr arbitrary: n rule: offered.induct) auto

lemma stamped_reports:
  "offered tr0 = [] \<Longrightarrow> m_sent_count st0 = m_sent_count st \<Longrightarrow> stamped st0 tr st'
     \<Longrightarrow> stamped st (tr0 @ tr) st'"
  by (simp add: stamped_def seqnos_from_append sent_append not_offered_sent not_offered_seqnos)

lemma stamped_only_reports:
  "offered tr = [] \<Longrightarrow> m_sent_count st' = m_sent_count st \<Longrightarrow> stamped st tr st'"
  by (simp add: stamped_def not_offered_sent not_offered_seqnos)

lemma buffer_and_emit_stamped:
  "buffer_and_emit obo es st = Some (tr, st') \<Longrightarrow> stamped st tr st'"
  by (auto simp: buffer_and_emit_def buffer_elems_def stamped_def
           dest!: emit_windows_stamped split: if_splits)

lemma process3_stamped:
  assumes "process3 mk ibo obo inp st = Some (tr, st')"
  shows "stamped st tr st'"
proof (cases "type inp")
  case kUnknown
  with assms show ?thesis
    by (auto simp: process3_def stamped_def dest!: buffer_and_emit_stamped
             split: Option.bind_splits)
next
  case kPayload
  with assms show ?thesis
    by (auto simp: process3_def Let_def stamped_def seqnos_from_append sent_append
                   not_offered_sent not_offered_seqnos
             split: Option.bind_splits prod.splits option.splits if_splits
             dest!: buffer_and_emit_stamped process_slice_reports)
next
  case kHeartbeat
  with assms show ?thesis
    by (auto simp: process3_def Let_def stamped_def seqnos_from_append sent_append
                   not_offered_sent not_offered_seqnos
             split: Option.bind_splits prod.splits option.splits if_splits
             dest!: buffer_and_emit_stamped flush_slice_reports)
qed

lemma drain3_stamped:
  assumes "drain3 mk ibo obo drop' st = Some (tr, st')"
  shows "stamped st tr st'"
  using assms
  by (auto simp: drain3_def buffer_elems_def stamped_def seqnos_from_append sent_append
                 not_offered_sent not_offered_seqnos
           split: Option.bind_splits prod.splits option.splits if_splits
           dest!: drain3_loop_stamped process_slice_reports)

lemma receive_loop_rule:
  assumes run: "receive_loop w q st = Some (tr, q', st')"
    and step: "\<And>inp st tr st'. Some inp \<in> set q \<Longrightarrow> process w inp st = Some (tr, st')
                 \<Longrightarrow> R st tr st'"
    and none: "\<And>st. R st [] st"
    and trans: "\<And>st tr1 st1 tr2 st2. R st tr1 st1 \<Longrightarrow> R st1 tr2 st2 \<Longrightarrow> R st (tr1 @ tr2) st2"
    and count: "\<And>st tr st'. R (st\<lparr>m_received_count := m_received_count st + 1\<rparr>) tr st' \<Longrightarrow> R st tr st'"
  shows "R st tr st'"
  using run step
proof (induction w q st arbitrary: tr q' st' rule: receive_loop.induct)
  case (1 w q st)
  note step = 1(3)
  show ?case
  proof (cases q)
    case Nil
    with 1(2) show ?thesis by (simp add: receive_def none)
  next
    case (Cons e q0)
    show ?thesis
    proof (cases e)
      case None
      with Cons 1(2) show ?thesis by (simp add: receive_def none)
    next
      case (Some inp)
      let ?st = "st\<lparr>m_received_count := m_received_count st + 1\<rparr>"
      have rc: "receive q st = (Some inp, q0, ?st)" by (simp add: receive_def Cons Some)
      with 1(2) obtain tr1 st1 tr2 where p: "process w inp ?st = Some (tr1, st1)"
        and l: "receive_loop w q0 st1 = Some (tr2, q', st')" and tr: "tr = tr1 @ tr2"
        by (auto split: Option.bind_splits)
      have "R st1 tr2 st'"
        by (rule 1(1) [OF rc [symmetric] refl refl p refl l]) (rule step, simp_all add: Cons)
      moreover have "R ?st tr1 st1" by (rule step [OF _ p]) (simp add: Cons Some)
      ultimately have "R ?st (tr1 @ tr2) st'" by (rule trans [rotated])
      then show ?thesis unfolding tr by (rule count)
    qed
  qed
qed

lemma do_work_rule:
  assumes run: "do_work w flags q st = Some (tr, q', st')"
    and step: "\<And>inp st tr st'. process w inp st = Some (tr, st') \<Longrightarrow> R st tr st'"
    and final: "\<And>st tr st'. drain w True st = Some (tr, st') \<Longrightarrow> R st tr (reset w st')"
    and none: "\<And>st. R st [] st"
    and trans: "\<And>st tr1 st1 tr2 st2. R st tr1 st1 \<Longrightarrow> R st1 tr2 st2 \<Longrightarrow> R st (tr1 @ tr2) st2"
    and count: "\<And>st tr st'. R (st\<lparr>m_received_count := m_received_count st + 1\<rparr>) tr st' \<Longrightarrow> R st tr st'"
  shows "R st tr st'"
  using run
proof (induction flags arbitrary: q st tr)
  case Nil
  then show ?case by (auto simp: leave_work_def final split: Option.bind_splits)
next
  case (Cons running flags)
  show ?case
  proof (cases running)
    case False
    with Cons(2) show ?thesis by (auto simp: leave_work_def final split: Option.bind_splits)
  next
    case True
    with Cons(2) obtain tr1 q1 st1 tr2 where r: "receive_loop w q st = Some (tr1, q1, st1)"
      and d: "do_work w flags q1 st1 = Some (tr2, q', st')" and tr: "tr = tr1 @ tr2"
      by (auto split: Option.bind_splits)
    have "R st tr1 st1"
    proof (rule receive_loop_rule [OF r])
      show "\<And>inp st tr st'. Some inp \<in> set q \<Longrightarrow> process w inp st = Some (tr, st')
              \<Longrightarrow> R st tr st'" by (rule step)
      show "\<And>st. R st [] st" by (rule none)
      show "\<And>st tr1 st1 tr2 st2. R st tr1 st1 \<Longrightarrow> R st1 tr2 st2 \<Longrightarrow> R st (tr1 @ tr2) st2"
        by (rule trans)
      show "\<And>st tr st'. R (st\<lparr>m_received_count := m_received_count st + 1\<rparr>) tr st' \<Longrightarrow> R st tr st'"
        by (rule count)
    qed
    then show ?thesis unfolding tr using Cons(1) [OF d] by (rule trans)
  qed
qed

section \<open>The drain of the \<open>Set<A>\<close> to \<open>B\<close> worker\<close>

text \<open>
  With \<open>drop\<close> true the loop of \<^verbatim>\<open>drain\<close> never pops: it can only return from an empty
  vector.
\<close>

lemma drain2_loop_returns:
  "drain2_loop drop' out_vec st = Some r \<Longrightarrow> \<not> (drop' \<and> out_vec \<noteq> [])"
  by (erule drain2_loop.raw_induct [rotated])
     (auto split: if_splits prod.splits Option.bind_splits)

lemma drain2_loop_drop_None: "out_vec \<noteq> [] \<Longrightarrow> drain2_loop True out_vec st = None"
  using drain2_loop_returns [of True out_vec st]
  by (cases "drain2_loop True out_vec st") auto

text \<open>
  C1. The claim: for every stage state, in every mode, the drain at worker exit
  completes, also when the flushed slice makes the algorithm produce outputs. In the
  \<open>Set<A>\<close> to \<open>B\<close> worker it does not. A stage with the identity algorithm is started,
  receives the payload set \<open>[0, 100)\<close> with the one element 5, which the input buffer
  absorbs, and is stopped: \<^verbatim>\<open>drain(true)\<close> flushes the slice, the algorithm produces one
  output, and the loop over \<^verbatim>\<open>out_vec\<close> runs forever, so \<^verbatim>\<open>do_work\<close> does not return.
\<close>

theorem drain2_drop_never_returns:
  "process2 identity_maker (TimeSliceInputBuffer id) (payload 0 100 [5]) stage0
     = ([], stage0\<lparr>m_in_buffer := Some (0, 100, [5])\<rparr>)
   \<and> drain2 identity_maker (TimeSliceInputBuffer id) True
       (stage0\<lparr>m_in_buffer := Some (0, 100, [5])\<rparr>) = None
   \<and> do_work (worker2 identity_maker (TimeSliceInputBuffer id)) [True]
       [Some (payload 0 100 [5])]
       (do_start (worker2 identity_maker (TimeSliceInputBuffer id)) () stage0) = None"
  by (simp add: leave_work_def worker2_def drain2_def do_start_def stage0_def
      TimeSliceInputBuffer_def tsib_flush_def tsib_buffer_def payload_def process2_def
      receive_def identity_maker_def drain2_loop_drop_None)

section \<open>Sequence numbers\<close>

text \<open>
  The lemma on \<open>do_work\<close> from any state is about the counter as a natural number; the
  two theorems after it start from \<^verbatim>\<open>do_start\<close>, where the counter is 0.
\<close>

lemma do_work3_stamped:
  assumes "do_work (worker3 mk ibo obo) flags q st = Some (tr, q', st')"
  shows "stamped st tr st'"
proof (rule do_work_rule [OF assms])
  show "\<And>inp st tr st'. process (worker3 mk ibo obo) inp st = Some (tr, st') \<Longrightarrow> stamped st tr st'"
    by (simp add: worker3_def process3_stamped)
  show "\<And>st tr st'. drain (worker3 mk ibo obo) True st = Some (tr, st')
          \<Longrightarrow> stamped st tr (reset (worker3 mk ibo obo) st')"
    by (auto simp: worker3_def reset3_def stamped_def dest!: drain3_stamped)
  show "\<And>st. stamped st [] st" by (simp add: stamped_def)
  show "\<And>st tr1 st1 tr2 st2. stamped st tr1 st1 \<Longrightarrow> stamped st1 tr2 st2 \<Longrightarrow> stamped st (tr1 @ tr2) st2"
    by (rule stamped_trans)
  show "\<And>st tr st'. stamped (st\<lparr>m_received_count := m_received_count st + 1\<rparr>) tr st' \<Longrightarrow> stamped st tr st'"
    by (simp add: stamped_def)
qed

text \<open>
  C3. In every run of the \<open>Set<A>\<close> to \<open>Set<B>\<close> stage, from \<^verbatim>\<open>do_start\<close> to the end of
  \<^verbatim>\<open>do_work\<close>, whatever the algorithm, the buffers, the inputs and the downstream queue
  do, the sequence numbers of the sets the output queue accepted are strictly
  increasing in the order of sending. In a run with at most \<open>2 ^ 64\<close> accepted sets
  every one of these numbers is below \<open>2 ^ 64\<close>: the counter of the code has not
  wrapped.
\<close>

theorem seqno_strictly_increasing:
  assumes "do_work (worker3 mk ibo obo) flags q (do_start (worker3 mk ibo obo) m0 st)
             = Some (tr, q', st')"
  shows "sorted_wrt (<) (map seqno (sent tr))
         \<and> (length (sent tr) \<le> 2 ^ 64 \<longrightarrow> (\<forall>n \<in> set (map seqno (sent tr)). n < 2 ^ 64))"
proof -
  have "m_sent_count (do_start (worker3 mk ibo obo) m0 st) = 0"
    by (simp add: do_start_def worker3_def reconfigure3_def)
  with do_work3_stamped [OF assms] have "seqnos_from 0 tr"
    by (simp add: stamped_def)
  then have m: "map seqno (sent tr) = [0 ..< 0 + length (sent tr)]"
    by (rule seqnos_from_sent)
  have "sorted_wrt (<) (map seqno (sent tr))" by (simp only: m) simp
  moreover have "n < 2 ^ 64" if "length (sent tr) \<le> 2 ^ 64" and "n \<in> set (map seqno (sent tr))" for n
  proof -
    from that(2) have "n < length (sent tr)" by (simp only: m) simp
    with that(1) show ?thesis by simp
  qed
  ultimately show ?thesis by blast
qed

theorem seqno_strictly_increasing_witness:
  "\<exists>tr q' st'.
     do_work (worker3 identity_maker (TimeSliceInputBuffer id) (TimeSliceOutputBuffer id))
       [True, False]
       [Some (payload 0 50 [5]), Some (payload 50 100 [30]), Some (payload 100 150 [105]),
        Some (payload 200 250 [210]), Some (heartbeat 400 450)]
       (do_start (worker3 identity_maker (TimeSliceInputBuffer id) (TimeSliceOutputBuffer id))
          () stage0) = Some (tr, q', st')
     \<and> length (sent tr) = 4 \<and> sorted_wrt (<) (map seqno (sent tr))"
proof -
  let ?run = "do_work (worker3 identity_maker (TimeSliceInputBuffer id) (TimeSliceOutputBuffer id))
       [True, False]
       [Some (payload 0 50 [5]), Some (payload 50 100 [30]), Some (payload 100 150 [105]),
        Some (payload 200 250 [210]), Some (heartbeat 400 450)]
       (do_start (worker3 identity_maker (TimeSliceInputBuffer id) (TimeSliceOutputBuffer id))
          () stage0)"
  have "\<exists>tr q' st'. ?run = Some (tr, q', st') \<and> length (sent tr) = 4"
    by (simp add: eval_defs)
  then obtain tr q' st' where run: "?run = Some (tr, q', st')" and n: "length (sent tr) = 4"
    by (elim exE conjE)
  from seqno_strictly_increasing [OF run]
  have s: "sorted_wrt (<) (map seqno (sent tr))" by (rule conjunct1)
  show ?thesis by (intro exI conjI) (rule run n s)+
qed

text \<open>
  C10. In a run started by \<^verbatim>\<open>do_start\<close>, every set handed to \<^verbatim>\<open>send\<close> carries the number
  of sets sent before it: a set that is dropped uses no number, the set after it
  carries the same one, and the \<open>i\<close>-th set sent (from 0) has sequence number \<open>i\<close>.
\<close>

theorem seqno_counts_sent:
  assumes "do_work (worker3 mk ibo obo) flags q (do_start (worker3 mk ibo obo) m0 st)
             = Some (tr, q', st')"
  shows "seqnos_from 0 tr \<and> (\<forall>i < length (sent tr). seqno (sent tr ! i) = i)"
proof -
  have "m_sent_count (do_start (worker3 mk ibo obo) m0 st) = 0"
    by (simp add: do_start_def worker3_def reconfigure3_def)
  with do_work3_stamped [OF assms] have s: "seqnos_from 0 tr"
    by (simp add: stamped_def)
  then have m: "map seqno (sent tr) = [0 ..< 0 + length (sent tr)]"
    by (rule seqnos_from_sent)
  have "seqno (sent tr ! i) = i" if "i < length (sent tr)" for i
  proof -
    from that have "seqno (sent tr ! i) = map seqno (sent tr) ! i" by simp
    also have "\<dots> = i" using that by (simp only: m) simp
    finally show ?thesis .
  qed
  with s show ?thesis by blast
qed

theorem seqno_counts_sent_witness:
  "\<exists>tr q' st'.
     do_work (worker3 identity_maker (TimeSliceInputBuffer id) (TimeSliceOutputBuffer id))
       [True, False]
       [Some (payload 0 50 [5]), Some (payload 50 100 [30]), Some (payload 100 150 [105]),
        Some (payload 200 250 [210]), Some (heartbeat 400 450)]
       (do_start (worker3 identity_maker (TimeSliceInputBuffer id) (TimeSliceOutputBuffer id))
          () (stage0\<lparr>m_output_queue := [True, False, True]\<rparr>)) = Some (tr, q', st')
     \<and> map start_time (offered tr) = [0, 100, 200, 400]
     \<and> map start_time (sent tr) = [0, 200, 400]
     \<and> seqnos_from 0 tr"
proof -
  let ?run = "do_work (worker3 identity_maker (TimeSliceInputBuffer id) (TimeSliceOutputBuffer id))
       [True, False]
       [Some (payload 0 50 [5]), Some (payload 50 100 [30]), Some (payload 100 150 [105]),
        Some (payload 200 250 [210]), Some (heartbeat 400 450)]
       (do_start (worker3 identity_maker (TimeSliceInputBuffer id) (TimeSliceOutputBuffer id))
          () (stage0\<lparr>m_output_queue := [True, False, True]\<rparr>))"
  have "\<exists>tr q' st'. ?run = Some (tr, q', st') \<and> map start_time (offered tr) = [0, 100, 200, 400]
     \<and> map start_time (sent tr) = [0, 200, 400]"
    by (simp add: eval_defs)
  then obtain tr q' st' where run: "?run = Some (tr, q', st')"
    and n: "map start_time (offered tr) = [0, 100, 200, 400]"
    and n': "map start_time (sent tr) = [0, 200, 400]"
    by (elim exE conjE)
  from seqno_counts_sent [OF run] have s: "seqnos_from 0 tr" by (rule conjunct1)
  show ?thesis by (intro exI conjI) (rule run n n' s)+
qed

section \<open>What the drain and the emission loop send\<close>

lemma drain_window_drop:
  "drain_window obo True st = (tr, st') \<Longrightarrow>
     tr = [] \<and> m_sent_count st' = m_sent_count st \<and> m_output_queue st' = m_output_queue st"
  by (auto simp: drain_window_def Let_def split: prod.splits if_splits)

lemma drain3_loop_drop:
  assumes "drain3_loop obo True st = Some (tr, st')"
  shows "tr = [] \<and> m_sent_count st' = m_sent_count st \<and> m_output_queue st' = m_output_queue st"
  by (rule drain3_loop_rule [OF assms]) (auto dest: drain_window_drop)

text \<open>
  C8. \<^verbatim>\<open>drain(true)\<close> of the \<open>Set<A>\<close> to \<open>Set<B>\<close> worker, from any state and with any
  algorithm and buffers: whenever it returns, it has handed nothing to \<^verbatim>\<open>send\<close>, so nothing
  went downstream, and \<open>m_sent_count\<close> and the downstream queue are as before. What the
  input buffer held has gone through the algorithm and what the output buffer held has
  been popped.
\<close>

theorem drain3_drop_sends_nothing:
  assumes "drain3 mk ibo obo True st = Some (tr, st')"
  shows "offered tr = [] \<and> sent tr = [] \<and> m_sent_count st' = m_sent_count st
         \<and> m_output_queue st' = m_output_queue st"
  using assms
  by (auto simp: drain3_def buffer_elems_def offered_append sent_append not_offered_sent
           split: Option.bind_splits prod.splits option.splits if_splits
           dest!: drain3_loop_drop process_slice_reports)

theorem drain3_drop_sends_nothing_witness:
  "receive_loop (worker3 identity_maker (TimeSliceInputBuffer id) (TimeSliceOutputBuffer id))
     [Some (payload 0 50 [10, 20]), Some (payload 50 100 [60])] stage0 = Some ([], [], stage_s5)
   \<and> (\<exists>tr st'. drain3 identity_maker (TimeSliceInputBuffer id) (TimeSliceOutputBuffer id) True stage_s5
                   = Some (tr, st')
        \<and> tsob_empty (m_out_buffer st') \<and> m_in_buffer st' = None
        \<and> offered tr = [] \<and> m_sent_count st' = 0)"
proof -
  have r: "receive_loop (worker3 identity_maker (TimeSliceInputBuffer id) (TimeSliceOutputBuffer id))
     [Some (payload 0 50 [10, 20]), Some (payload 50 100 [60])] stage0 = Some ([], [], stage_s5)"
    by (simp add: eval_defs stage_s5_def)
  have "\<exists>tr st'. drain3 identity_maker (TimeSliceInputBuffer id) (TimeSliceOutputBuffer id) True stage_s5
                   = Some (tr, st') \<and> tsob_empty (m_out_buffer st') \<and> m_in_buffer st' = None"
    by (simp add: eval_defs stage_s5_def)
  then obtain tr st' where
    d: "drain3 identity_maker (TimeSliceInputBuffer id) (TimeSliceOutputBuffer id) True stage_s5
          = Some (tr, st')"
    and e: "tsob_empty (m_out_buffer st')" and i: "m_in_buffer st' = None"
    by (elim exE conjE)
  from drain3_drop_sends_nothing [OF d]
  have o: "offered tr = []" and c: "m_sent_count st' = 0"
    by (simp_all add: stage_s5_def stage0_def)
  show ?thesis by (intro exI conjI) (rule r d e i o c)+
qed

lemma send_or_drop_offered: "send_or_drop out st = (tr, st') \<Longrightarrow> offered tr = [out]"
  by (auto simp: send_or_drop_def send_def split: list.splits if_splits)

lemma emit_window_sendable:
  "emit_window obo st = (tr, st') \<Longrightarrow> list_all sendable (offered tr)"
  by (auto simp: emit_window_def Let_def sendable_def split: prod.splits if_splits
           dest!: send_or_drop_offered)

lemma drain_window_sendable:
  "drain_window obo drop' st = (tr, st') \<Longrightarrow> list_all sendable (offered tr)"
  by (auto simp: drain_window_def Let_def sendable_def split: prod.splits if_splits
           dest!: send_or_drop_offered)

lemma emit_windows_sendable:
  assumes "emit_windows obo st = Some (tr, st')"
  shows "list_all sendable (offered tr)"
  by (rule emit_windows_rule [OF assms]) (auto simp: offered_append dest: emit_window_sendable)

lemma drain3_loop_sendable:
  assumes "drain3_loop obo drop' st = Some (tr, st')"
  shows "list_all sendable (offered tr)"
  by (rule drain3_loop_rule [OF assms]) (auto simp: offered_append dest: drain_window_sendable)

lemma process3_sendable:
  assumes "process3 mk ibo obo inp st = Some (tr, st')"
  shows "list_all sendable (offered tr)"
  using assms
  by (cases "type inp")
     (auto simp: process3_def Let_def buffer_and_emit_def offered_append
           split: Option.bind_splits prod.splits option.splits if_splits
           dest!: emit_windows_sendable process_slice_reports flush_slice_reports)

lemma drain3_sendable:
  assumes "drain3 mk ibo obo drop' st = Some (tr, st')"
  shows "list_all sendable (offered tr)"
  using assms
  by (auto simp: drain3_def offered_append
           split: Option.bind_splits prod.splits option.splits if_splits
           dest!: drain3_loop_sendable process_slice_reports)

text \<open>
  C4, as claimed: every heartbeat marker popped from the output buffer is forwarded. It
  is not: the algorithm throws in \<^verbatim>\<open>flush\<close> on a heartbeat, so \<^verbatim>\<open>process\<close> returns with the
  marker buffered and nothing emitted; the stop comes, \<^verbatim>\<open>drain(true)\<close> pops the marker
  and hands nothing to \<^verbatim>\<open>send\<close>.
\<close>

theorem heartbeat_dropped_by_drain:
  "process3 throwing_maker (TimeSliceInputBuffer id) (TimeSliceOutputBuffer id) (heartbeat 400 450)
     stage0 = Some ([Report Fatal AlgorithmFatalError], stage_hb)
   \<and> type (fst (tsob_flush id (m_out_buffer stage_hb))) = kHeartbeat
   \<and> drain3 throwing_maker (TimeSliceInputBuffer id) (TimeSliceOutputBuffer id) True stage_hb
       = Some ([], stage0\<lparr>m_out_buffer := (m_out_buffer stage0)\<lparr>watermark := 400\<rparr>\<rparr>)
   \<and> do_work (worker3 throwing_maker (TimeSliceInputBuffer id) (TimeSliceOutputBuffer id))
       [True] [Some (heartbeat 400 450)] stage0
       = Some ([Report Fatal AlgorithmFatalError], [], stage0\<lparr>m_received_count := 1\<rparr>)"
  by (simp add: eval_defs stage_hb_def)

text \<open>
  C4, amended. Every set that \<^verbatim>\<open>process\<close> and \<^verbatim>\<open>drain\<close> hand to \<^verbatim>\<open>send\<close> is a heartbeat
  or a payload set with objects: a payload window without objects is skipped. A
  heartbeat marker popped in the emission loop of \<^verbatim>\<open>process\<close>, or in \<^verbatim>\<open>drain(false)\<close>, is
  handed to \<^verbatim>\<open>send\<close> with the sequence number and the origin set; popped in
  \<^verbatim>\<open>drain(true)\<close> it is not forwarded.
\<close>

theorem sendable_sets_only:
  assumes "process3 mk ibo obo inp st = Some (tr, st')"
    and "drain3 mk ibo obo drop' dst = Some (dtr, dst')"
    and "ob_flush obo (m_out_buffer wst) = (flushed, ob')"
    and "type flushed = kHeartbeat"
  shows "list_all sendable (offered tr) \<and> list_all sendable (offered dtr)
         \<and> offered (fst (emit_window obo wst))
             = [flushed\<lparr>seqno := m_sent_count wst, origin := (kTrigger, m_sourceid wst)\<rparr>]
         \<and> offered (fst (drain_window obo False wst))
             = [flushed\<lparr>seqno := m_sent_count wst, origin := (kTrigger, m_sourceid wst)\<rparr>]
         \<and> fst (drain_window obo True wst) = []"
proof -
  obtain tr1 st1 where s: "send_or_drop (flushed\<lparr>seqno := m_sent_count wst, origin := (kTrigger, m_sourceid wst)\<rparr>)
      (wst\<lparr>m_out_buffer := ob'\<rparr>) = (tr1, st1)" by force
  from assms(3,4) s send_or_drop_offered [OF s]
  have "offered (fst (emit_window obo wst))
             = [flushed\<lparr>seqno := m_sent_count wst, origin := (kTrigger, m_sourceid wst)\<rparr>]"
    and "offered (fst (drain_window obo False wst))
             = [flushed\<lparr>seqno := m_sent_count wst, origin := (kTrigger, m_sourceid wst)\<rparr>]"
    and "fst (drain_window obo True wst) = []"
    by (simp_all add: emit_window_def drain_window_def Let_def)
  with process3_sendable [OF assms(1)] drain3_sendable [OF assms(2)] show ?thesis by simp
qed

theorem sendable_sets_only_witness:
  "\<exists>tr st' dtr dst'.
     process3 identity_maker (TimeSliceInputBuffer id) (TimeSliceOutputBuffer id)
       (heartbeat 400 450) stage_s5 = Some (tr, st')
     \<and> drain3 identity_maker (TimeSliceInputBuffer id) (TimeSliceOutputBuffer id) False stage_s5
         = Some (dtr, dst')
     \<and> map objects (offered tr) = [[10, 20, 60], []]
     \<and> map objects (offered dtr) = [[10, 20, 60]]
     \<and> list_all sendable (offered tr) \<and> list_all sendable (offered dtr)
     \<and> offered (fst (emit_window (TimeSliceOutputBuffer id) stage_hb))
         = [\<lparr>type = kHeartbeat, start_time = 400, end_time = 450, origin = (kTrigger, 7),
             seqno = 0, objects = []\<rparr>]
     \<and> fst (drain_window (TimeSliceOutputBuffer id) True stage_hb) = []"
proof -
  let ?ib = "TimeSliceInputBuffer id :: (nat, nat TimeSliceInputBuffer) in_buffer_ops"
  let ?ob = "TimeSliceOutputBuffer id :: (nat, nat TimeSliceOutputBuffer) out_buffer_ops"
  let ?hb = "\<lparr>type = kHeartbeat, start_time = 400, end_time = 450, origin = (kTrigger, 7),
             seqno = 0, objects = []\<rparr> :: nat tset"
  have "\<exists>tr st'. process3 identity_maker ?ib ?ob (heartbeat 400 450) stage_s5 = Some (tr, st')
          \<and> map objects (offered tr) = [[10, 20, 60], []]"
    by (simp add: eval_defs stage_s5_def)
  then obtain tr st' where p: "process3 identity_maker ?ib ?ob (heartbeat 400 450) stage_s5 = Some (tr, st')"
    and po: "map objects (offered tr) = [[10, 20, 60], []]"
    by (elim exE conjE)
  have "\<exists>dtr dst'. drain3 identity_maker ?ib ?ob False stage_s5 = Some (dtr, dst')
          \<and> map objects (offered dtr) = [[10, 20, 60]]"
    by (simp add: eval_defs stage_s5_def)
  then obtain dtr dst' where d: "drain3 identity_maker ?ib ?ob False stage_s5 = Some (dtr, dst')"
    and d_o: "map objects (offered dtr) = [[10, 20, 60]]"
    by (elim exE conjE)
  have f: "ob_flush ?ob (m_out_buffer stage_hb)
             = (?hb, \<lparr>window_time = 100, buffer_time = 0, watermark = 400, buffered = [],
                      heartbeats = []\<rparr>)"
    by (simp add: eval_defs stage_hb_def)
  have t: "type ?hb = kHeartbeat" by simp
  from sendable_sets_only [OF p d f t]
  have s1: "list_all sendable (offered tr)" and s2: "list_all sendable (offered dtr)"
    and s3: "offered (fst (emit_window ?ob stage_hb)) = [?hb]"
    and s4: "fst (drain_window ?ob True stage_hb) = []"
    by (simp_all add: stage_hb_def stage0_def)
  show ?thesis by (intro exI conjI) (rule p d po d_o s1 s2 s3 s4)+
qed

section \<open>What the emission loop leaves alone\<close>

lemma emit_window_frame:
  "emit_window obo st = (tr, st') \<Longrightarrow>
     m_prev_start_time st' = m_prev_start_time st \<and> m_in_buffer st' = m_in_buffer st
     \<and> m_maker st' = m_maker st \<and> m_received_count st' = m_received_count st"
  by (auto simp: emit_window_def Let_def send_or_drop_def send_def
           split: prod.splits if_splits list.splits)

lemma emit_windows_frame:
  assumes "emit_windows obo st = Some (tr, st')"
  shows "m_prev_start_time st' = m_prev_start_time st \<and> m_in_buffer st' = m_in_buffer st
     \<and> m_maker st' = m_maker st \<and> m_received_count st' = m_received_count st"
  by (rule emit_windows_rule [OF assms]) (auto dest: emit_window_frame)

lemma buffer_and_emit_frame:
  assumes "buffer_and_emit obo es st = Some (tr, st')"
  shows "m_prev_start_time st' = m_prev_start_time st \<and> m_in_buffer st' = m_in_buffer st
     \<and> m_maker st' = m_maker st \<and> m_received_count st' = m_received_count st"
  using emit_windows_frame [of obo "buffer_elems obo es st" tr st'] assms
  by (simp add: buffer_and_emit_def buffer_elems_def split: if_splits)





section \<open>Payload sets out of order\<close>



section \<open>The order of the outputs of the \<open>Set<A>\<close> to \<open>B\<close> worker\<close>

lemma send_out_vec_Nil: "send_out_vec [] st = ([], st)"
  by (subst send_out_vec.simps) simp

lemma send_out_vec_snoc:
  "send_out_vec (out_vec @ [out]) st =
     (case send_or_drop out st of
        (tr1, st1) \<Rightarrow> (case send_out_vec out_vec st1 of (tr2, st2) \<Rightarrow> (tr1 @ tr2, st2)))"
  by (subst send_out_vec.simps) simp

lemma send_or_drop_frame:
  "send_or_drop out st = (tr, st') \<Longrightarrow>
     m_in_buffer st' = m_in_buffer st \<and> m_maker st' = m_maker st
     \<and> m_received_count st' = m_received_count st \<and> m_out_buffer st' = m_out_buffer st"
  by (auto simp: send_or_drop_def send_def split: list.splits if_splits)

lemma send_out_vec_offered: "offered (fst (send_out_vec out_vec st)) = rev out_vec"
proof (induction out_vec arbitrary: st rule: rev_induct)
  case Nil
  show ?case by (simp add: send_out_vec_Nil)
next
  case (snoc out out_vec)
  obtain tr1 st1 where s: "send_or_drop out st = (tr1, st1)" by force
  with snoc [of st1] send_or_drop_offered [OF s] show ?case
    by (auto simp: send_out_vec_snoc offered_append split: prod.splits)
qed

lemma send_out_vec_frame:
  "m_in_buffer (snd (send_out_vec out_vec st)) = m_in_buffer st
   \<and> m_maker (snd (send_out_vec out_vec st)) = m_maker st
   \<and> m_received_count (snd (send_out_vec out_vec st)) = m_received_count st"
proof (induction out_vec arbitrary: st rule: rev_induct)
  case Nil
  show ?case by (simp add: send_out_vec_Nil)
next
  case (snoc out out_vec)
  obtain tr1 st1 where s: "send_or_drop out st = (tr1, st1)" by force
  with snoc [of st1] send_or_drop_frame [OF s] show ?case
    by (auto simp: send_out_vec_snoc split: prod.splits)
qed

lemma process_slice_outputs:
  "process_slice mk xs m out_vec = (tr, m', out_vec')
     \<Longrightarrow> out_vec' = out_vec @ concat (slice_outputs mk m xs)"
proof (induction xs arbitrary: m out_vec)
  case Nil
  then show ?case by simp
next
  case (Cons x xs)
  obtain m1 outs threw where a: "mk_apply mk m x = (m1, outs, threw)" by (metis prod_cases3)
  show ?case
  proof (cases threw)
    case True
    with a Cons(2) show ?thesis by simp
  next
    case False
    with a Cons(2) have "process_slice mk xs m1 (out_vec @ outs) = (tr, m', out_vec')" by simp
    from Cons(1) [OF this] a False show ?thesis by simp
  qed
qed

lemma send_out_vec_Cons:
  "send_out_vec (out # out_vec) st =
     (case send_or_drop (last (out # out_vec)) st of
        (tr1, st1) \<Rightarrow>
          (case send_out_vec (butlast (out # out_vec)) st1 of (tr2, st2) \<Rightarrow> (tr1 @ tr2, st2)))"
  by (subst send_out_vec.simps) simp

lemma tsib_buffer_sorted:
  "tsib_buffer time_start b inp = (b', Some (time_slice, s, e)) \<Longrightarrow> sorted (map time_start time_slice)"
  by (auto simp: tsib_buffer_def split: option.splits if_splits)

lemma tsib_flush_sorted:
  "tsib_flush time_start b = (b', Some (time_slice, s, e)) \<Longrightarrow> sorted (map time_start time_slice)"
  by (auto simp: tsib_flush_def split: option.splits)

text \<open>
  C2, as claimed: the outputs of a slice go to the output channel in the order the
  algorithm produced them. They do not: the slice \<open>[10]\<close> is released, the algorithm
  produces 10 and then 11, and 11 is sent before 10.
\<close>

theorem outputs_not_in_production_order:
  "offered (fst (process2 twice_maker (TimeSliceInputBuffer id) (payload 100 200 [150])
                   (stage0\<lparr>m_in_buffer := Some (0, 100, [10])\<rparr>))) = [11, 10]
   \<and> sent (fst (process2 twice_maker (TimeSliceInputBuffer id) (payload 100 200 [150])
                   (stage0\<lparr>m_in_buffer := Some (0, 100, [10])\<rparr>))) = [11, 10]
   \<and> concat (slice_outputs twice_maker () [10]) = [10, 11]"
  by (simp add: eval_defs send_out_vec_Nil send_out_vec_Cons)

text \<open>
  C2, amended. When a payload set completes a slice, the algorithm is invoked on the
  elements of the slice in the order of the slice (by \<open>tsib_buffer_sorted\<close> the order of
  their \<open>time_start\<close>), up to the first invocation that throws, and every output is handed
  to \<^verbatim>\<open>send\<close>, the last one produced first: what is offered is the reverse of the
  concatenation of the elements' outputs.
\<close>

theorem outputs_offered_last_first:
  fixes mk :: "('a, 'b, 'm) maker"
  assumes "type inp = kPayload"
    and "ib_buffer ibo (m_in_buffer st) inp = (ib', Some (time_slice, slice_start, slice_end))"
  shows "offered (fst (process2 mk ibo inp st))
           = rev (concat (slice_outputs mk (m_maker st) time_slice))"
proof (cases "process_slice mk time_slice (m_maker st) [] :: 'b event list \<times> 'm \<times> 'b list")
  case (fields tr1 m' out_vec)
  from process_slice_outputs [OF fields] process_slice_reports [OF fields] assms fields
    send_out_vec_offered [of out_vec "st\<lparr>m_in_buffer := ib', m_maker := m'\<rparr>"]
  show ?thesis
    by (auto simp: process2_def offered_append split: prod.splits)
qed

theorem outputs_offered_last_first_witness:
  "offered (fst (process2 twice_maker (TimeSliceInputBuffer id) (payload 100 200 [150])
                   (stage0\<lparr>m_in_buffer := Some (0, 100, [30, 10])\<rparr>))) = [31, 30, 11, 10]"
proof -
  have t: "type (payload 100 200 [150]) = kPayload" by (simp add: payload_def)
  have b: "ib_buffer (TimeSliceInputBuffer id)
             (m_in_buffer (stage0\<lparr>m_in_buffer := Some (0, 100, [30, 10])\<rparr>)) (payload 100 200 [150])
           = (Some (100, 200, [150]), Some ([10, 30], 0, 100))"
    by (simp add: eval_defs)
  from outputs_offered_last_first [OF t b, of twice_maker] show ?thesis
    by (simp add: twice_maker_def stage0_def)
qed

section \<open>A heartbeat earlier than the end of the buffered slice\<close>

lemma process_slice_any_effects:
  "snd (process_slice mk xs m out_vec :: 'x event list \<times> 'm \<times> 'b list)
     = snd (process_slice mk xs m out_vec :: 'y event list \<times> 'm \<times> 'b list)"
  by (induction xs arbitrary: m out_vec) (auto split: prod.splits)

text \<open>
  C6. On a heartbeat the input buffer is flushed (the stage is left with the flushed
  buffer). If the flushed slice ends after the heartbeat's start time, the first effect
  is the fatal \<open>OutOfOrderSets\<close>, and the slice still goes through \<^verbatim>\<open>process_slice\<close>: its
  effects follow, the algorithm is left in the state after the slice and the flush, and
  in the \<open>Set<A>\<close> to \<open>B\<close> worker the outputs of the slice are handed to \<^verbatim>\<open>send\<close> when the
  flush does not throw. Both specialisations.
\<close>

theorem late_slice_still_processed:
  fixes mk :: "('a, 'b, 'm) maker"
  assumes "type inp = kHeartbeat"
    and "ib_flush ibo (m_in_buffer st) = (ib', Some (time_slice, slice_start, slice_end))"
    and "slice_end > start_time inp"
    and "mk_flush mk (fst (snd (process_slice mk time_slice (m_maker st) [] :: 'b event list \<times> 'm \<times> 'b list)))
           (end_time inp) = (m2, outs, threw)"
  shows "(\<exists>rest. fst (process2 mk ibo inp st)
            = Report Fatal (OutOfOrderSets slice_end (start_time inp))
              # fst (process_slice mk time_slice (m_maker st) []) @ rest)
         \<and> m_maker (snd (process2 mk ibo inp st)) = m2
         \<and> m_in_buffer (snd (process2 mk ibo inp st)) = ib'
         \<and> (\<not> threw \<longrightarrow> offered (fst (process2 mk ibo inp st))
                = rev (concat (slice_outputs mk (m_maker st) time_slice) @ outs))
         \<and> (\<forall>tr st'. process3 mk ibo obo inp st = Some (tr, st') \<longrightarrow>
               (\<exists>rest. tr = Report Fatal (OutOfOrderSets slice_end (start_time inp))
                             # fst (process_slice mk time_slice (m_maker st) []) @ rest)
               \<and> m_maker st' = m2 \<and> m_in_buffer st' = ib')"
proof (cases "process_slice mk time_slice (m_maker st) [] :: 'b event list \<times> 'm \<times> 'b list")
  case (fields trs m1 elems)
  have two: "m_maker (snd (process2 mk ibo inp st)) = m2
         \<and> m_in_buffer (snd (process2 mk ibo inp st)) = ib'
         \<and> (\<exists>rest. fst (process2 mk ibo inp st)
            = Report Fatal (OutOfOrderSets slice_end (start_time inp)) # trs @ rest)
         \<and> (\<not> threw \<longrightarrow> offered (fst (process2 mk ibo inp st))
                = rev (concat (slice_outputs mk (m_maker st) time_slice) @ outs))"
    using assms fields process_slice_outputs [OF fields] process_slice_reports [OF fields]
      send_out_vec_frame [of "elems @ outs" "st\<lparr>m_in_buffer := ib', m_maker := m2\<rparr>"]
      send_out_vec_offered [of "elems @ outs" "st\<lparr>m_in_buffer := ib', m_maker := m2\<rparr>"]
    by (auto simp: process2_def flush_slice_def offered_append split: prod.splits)
  obtain trs3 :: "'b tset event list" where
    f3: "process_slice mk time_slice (m_maker st) [] = (trs3, m1, elems)"
    using process_slice_any_effects [of mk time_slice "m_maker st" "[]", where ?'x = "'b tset" and ?'y = 'b]
      fields by (cases "process_slice mk time_slice (m_maker st) [] :: 'b tset event list \<times> 'm \<times> 'b list") auto
  have three: "process3 mk ibo obo inp st = Some (tr, st') \<Longrightarrow>
               (\<exists>rest. tr = Report Fatal (OutOfOrderSets slice_end (start_time inp)) # trs3 @ rest)
               \<and> m_maker st' = m2 \<and> m_in_buffer st' = ib'" for tr st'
    using assms fields f3
    by (auto simp: process3_def flush_slice_def Let_def
             split: prod.splits if_splits Option.bind_splits dest!: buffer_and_emit_frame)
  from two three fields f3 show ?thesis by simp
qed

theorem late_slice_still_processed_witness:
  "fst (process2 identity_maker (TimeSliceInputBuffer id) (heartbeat 250 260)
          (stage0\<lparr>m_in_buffer := Some (200, 300, [210])\<rparr>))
     = [Report Fatal (OutOfOrderSets 300 250), Sent 210]
   \<and> m_in_buffer (snd (process2 identity_maker (TimeSliceInputBuffer id) (heartbeat 250 260)
          (stage0\<lparr>m_in_buffer := Some (200, 300, [210])\<rparr>))) = None
   \<and> offered (fst (process2 identity_maker (TimeSliceInputBuffer id) (heartbeat 250 260)
          (stage0\<lparr>m_in_buffer := Some (200, 300, [210])\<rparr>))) = [210]
   \<and> (\<exists>st'. process3 identity_maker (TimeSliceInputBuffer id) (TimeSliceOutputBuffer id)
          (heartbeat 250 260) (stage0\<lparr>m_in_buffer := Some (200, 300, [210])\<rparr>)
          = Some ([Report Fatal (OutOfOrderSets 300 250)], st')
        \<and> m_in_buffer st' = None \<and> buffered (m_out_buffer st') = [210])"
proof -
  let ?st = "stage0\<lparr>m_in_buffer := Some (200, 300, [210])\<rparr>"
  let ?ib = "TimeSliceInputBuffer id :: (nat, nat TimeSliceInputBuffer) in_buffer_ops"
  let ?ob = "TimeSliceOutputBuffer id :: (nat, nat TimeSliceOutputBuffer) out_buffer_ops"
  have t: "type (heartbeat 250 260) = kHeartbeat" by (simp add: heartbeat_def)
  have f: "ib_flush ?ib (m_in_buffer ?st) = (None, Some ([210], 200, 300))"
    by (simp add: eval_defs)
  have l: "300 > start_time (heartbeat 250 260)" by (simp add: heartbeat_def)
  have m: "mk_flush identity_maker
             (fst (snd (process_slice identity_maker [210] (m_maker ?st) [] :: nat event list \<times> unit \<times> nat list)))
             (end_time (heartbeat 250 260)) = ((), [], False)"
    by (simp add: identity_maker_def)
  have p2: "fst (process2 identity_maker ?ib (heartbeat 250 260) ?st)
     = [Report Fatal (OutOfOrderSets 300 250), Sent 210]"
    by (simp add: eval_defs send_out_vec_Nil send_out_vec_Cons)
  have "\<exists>st'. process3 identity_maker ?ib ?ob (heartbeat 250 260) ?st
          = Some ([Report Fatal (OutOfOrderSets 300 250)], st') \<and> buffered (m_out_buffer st') = [210]"
    by (simp add: eval_defs)
  then obtain st' where p3: "process3 identity_maker ?ib ?ob (heartbeat 250 260) ?st
          = Some ([Report Fatal (OutOfOrderSets 300 250)], st')"
    and b: "buffered (m_out_buffer st') = [210]"
    by (elim exE conjE)
  from late_slice_still_processed [OF t f l m, of ?ob] p3
  have i2: "m_in_buffer (snd (process2 identity_maker ?ib (heartbeat 250 260) ?st)) = None"
    and o2: "offered (fst (process2 identity_maker ?ib (heartbeat 250 260) ?st)) = [210]"
    and i3: "m_in_buffer st' = None"
    by (simp_all add: identity_maker_def stage0_def)
  show ?thesis by (intro exI conjI) (rule p2 i2 o2 p3 i3 b)+
qed

section \<open>Leaving the receive loop\<close>

lemma receive_loop_after_round:
  "receive_loop w q st = Some (tr, q', st') \<Longrightarrow> q' = after_round q"
proof (induction q arbitrary: st tr)
  case Nil
  then show ?case by (simp add: receive_def)
next
  case (Cons e q)
  show ?case
  proof (cases e)
    case None
    with Cons(2) show ?thesis by (simp add: receive_def)
  next
    case (Some inp)
    with Cons(2) obtain st1 tr2 where "receive_loop w q st1 = Some (tr2, q', st')"
      by (auto simp: receive_def split: Option.bind_splits)
    from Cons(1) [OF this] Some show ?thesis by simp
  qed
qed

text \<open>
  C9. The worker reads the running flag at the head of the outer loop only. Each time
  it reads true it runs one round of the receive loop, which takes inputs until a
  receive times out. Once it reads false it takes nothing more from the input queue:
  what \<^verbatim>\<open>do_work\<close> leaves in the queue is what the rounds before the first false reading
  left, and the drain follows (\<open>do_work\<close> is \<open>leave_work\<close> there).
\<close>

theorem no_receive_after_flag_false:
  assumes "do_work w flags q st = Some (tr, q', st')"
  shows "q' = (after_round ^^ length (takeWhile (\<lambda>running. running) flags)) q"
  using assms
proof (induction flags arbitrary: q st tr)
  case Nil
  then show ?case by (auto simp: leave_work_def split: Option.bind_splits)
next
  case (Cons running flags)
  show ?case
  proof (cases running)
    case False
    with Cons(2) show ?thesis by (auto simp: leave_work_def split: Option.bind_splits)
  next
    case True
    with Cons(2) obtain tr1 q1 st1 tr2 where r: "receive_loop w q st = Some (tr1, q1, st1)"
      and d: "do_work w flags q1 st1 = Some (tr2, q', st')"
      by (auto split: Option.bind_splits)
    from Cons(1) [OF d] receive_loop_after_round [OF r] True show ?thesis
      by (simp add: funpow_swap1)
  qed
qed

theorem no_receive_after_flag_false_witness:
  "\<exists>tr st'.
     do_work (worker3 identity_maker (TimeSliceInputBuffer id) (TimeSliceOutputBuffer id))
       [True, False, True]
       [Some (payload 0 50 [5]), Some (payload 50 100 [30]), None, Some (payload 100 150 [105]),
        None, Some (heartbeat 400 450)] stage0
     = Some (tr, [Some (payload 100 150 [105]), None, Some (heartbeat 400 450)], st')
     \<and> m_received_count st' = 2"
proof -
  let ?run = "do_work (worker3 identity_maker (TimeSliceInputBuffer id) (TimeSliceOutputBuffer id))
       [True, False, True]
       [Some (payload 0 50 [5]), Some (payload 50 100 [30]), None, Some (payload 100 150 [105]),
        None, Some (heartbeat 400 450)] stage0"
  have "\<exists>tr q' st'. ?run = Some (tr, q', st') \<and> m_received_count st' = 2"
    by (simp add: eval_defs)
  then obtain tr q' st' where run: "?run = Some (tr, q', st')" and c: "m_received_count st' = 2"
    by (elim exE conjE)
  from no_receive_after_flag_false [OF run]
  have "q' = [Some (payload 100 150 [105]), None, Some (heartbeat 400 450)]"
    by (simp add: numeral_2_eq_2)
  with run have r: "?run = Some (tr, [Some (payload 100 150 [105]), None, Some (heartbeat 400 450)], st')"
    by simp
  show ?thesis by (intro exI conjI) (rule r c)+
qed

section \<open>An algorithm that throws\<close>

lemma receive_loop_Some:
  "receive_loop w (Some inp # q) st =
     do { (tr1, st1) \<leftarrow> process w inp (st\<lparr>m_received_count := m_received_count st + 1\<rparr>);
          (tr2, q2, st2) \<leftarrow> receive_loop w q st1;
          Some (tr1 @ tr2, q2, st2) }"
  by (subst receive_loop.simps) (simp add: receive_def)

lemma process_slice_effects:
  "process_slice mk time_slice m out_vec
     = (if throws mk m time_slice then [Report Fatal AlgorithmFatalError] else [],
        maker_after mk m time_slice, out_vec @ concat (slice_outputs mk m time_slice))"
proof (induction time_slice arbitrary: m out_vec)
  case Nil
  show ?case by simp
next
  case (Cons x xs)
  obtain m1 outs threw where a: "mk_apply mk m x = (m1, outs, threw)" by (metis prod_cases3)
  show ?case
  proof (cases threw)
    case True
    with a show ?thesis by simp
  next
    case False
    with a Cons [of m1 "out_vec @ outs"] show ?thesis by simp
  qed
qed

lemma flush_slice_effects:
  "flush_slice mk inp flushed m
     = (case flushed of
          None \<Rightarrow> ([], m, [])
        | Some (time_slice, slice_start, slice_end) \<Rightarrow>
            ((if slice_end > start_time inp
              then [Report Fatal (OutOfOrderSets slice_end (start_time inp))] else [])
             @ (if throws mk m time_slice then [Report Fatal AlgorithmFatalError] else []),
             maker_after mk m time_slice, concat (slice_outputs mk m time_slice)))"
  by (simp add: flush_slice_def process_slice_effects split: option.splits)

text \<open>
  C7. A throw of the algorithm ends in the stage, whichever operation throws and at
  whichever element. Four facts, each with its own hypothesis, \<open>mk\<close> an algorithm that
  may throw in \<^verbatim>\<open>operator()\<close> and \<open>mkf\<close> one that may throw in \<^verbatim>\<open>flush\<close>.
  \<^item> \<^verbatim>\<open>process_slice\<close>, on any slice: it reports the fatal \<open>AlgorithmFatalError\<close> once if
    an invocation throws, at whatever place in the slice, and nothing otherwise; it
    returns with the outputs of the invocations made.
  \<^item> Base worker: an input on which \<^verbatim>\<open>operator()\<close> throws leaves that one report and
    sends nothing, and the receive loop goes on with the rest of the queue.
  \<^item> A payload set that completes a slice in which an invocation throws: in the
    \<open>Set<A>\<close> to \<open>Set<B>\<close> worker the report is followed by the usual buffering and
    emission of the outputs made so far, in the \<open>Set<A>\<close> to \<open>B\<close> worker by their sending.
  \<^item> A heartbeat on which \<^verbatim>\<open>flush\<close> throws, after a flushed slice or none: the report
    follows the effects of the slice, \<^verbatim>\<open>process\<close> returns (in the \<open>Set<A>\<close> to \<open>Set<B>\<close>
    worker with the marker in the output buffer), and the receive loop of either
    worker goes on with the rest of the queue.
\<close>

theorem algorithm_failure_contained:
  fixes mk mkf :: "('a, 'b, 'm) maker"
    and st pst hst :: "('m, 'ib, 'ob) stage"
  shows
    "process_slice mk time_slice m out_vec
       = ((if throws mk m time_slice then [Report Fatal AlgorithmFatalError] else []) :: 'o event list,
          maker_after mk m time_slice, out_vec @ concat (slice_outputs mk m time_slice))
     \<and> (mk_apply mk (m_maker st) x = (m', outs, True) \<longrightarrow>
          process1 mk x st = ([Report Fatal AlgorithmFatalError], st\<lparr>m_maker := m'\<rparr>)
          \<and> receive_loop (worker1 mk) (Some x # q1) st
              = map_option (\<lambda>(tr, r). (Report Fatal AlgorithmFatalError # tr, r))
                  (receive_loop (worker1 mk) q1
                     (st\<lparr>m_received_count := m_received_count st + 1, m_maker := m'\<rparr>)))
     \<and> (type inp = kPayload
          \<and> ib_buffer ibo (m_in_buffer pst) inp = (ibp, Some (pslice, slice_start, slice_end))
          \<and> throws mk (m_maker pst) pslice \<longrightarrow>
          process3 mk ibo obo inp pst
            = map_option
                (\<lambda>(tr, r).
                   ((if m_prev_start_time pst \<noteq> 0 \<and> start_time inp < m_prev_start_time pst
                     then [Report Warning (OutOfOrderSets (m_prev_start_time pst) (start_time inp))]
                     else []) @ Report Fatal AlgorithmFatalError # tr, r))
                (buffer_and_emit obo (concat (slice_outputs mk (m_maker pst) pslice))
                   (pst\<lparr>m_prev_start_time := start_time inp, m_in_buffer := ibp,
                         m_maker := maker_after mk (m_maker pst) pslice\<rparr>))
          \<and> process2 mk ibo inp pst
              = (case send_out_vec (concat (slice_outputs mk (m_maker pst) pslice))
                        (pst\<lparr>m_in_buffer := ibp, m_maker := maker_after mk (m_maker pst) pslice\<rparr>) of
                   (tr, r) \<Rightarrow> (Report Fatal AlgorithmFatalError # tr, r)))
     \<and> (type hb = kHeartbeat
          \<and> ib_flush ibo (m_in_buffer hst) = (ibh, flushed)
          \<and> mk_flush mkf
                (case flushed of None \<Rightarrow> m_maker hst
                 | Some (fslice, fstart, fend) \<Rightarrow> maker_after mkf (m_maker hst) fslice)
                (end_time hb) = (m2, outs2, True) \<longrightarrow>
          receive_loop (worker3 mkf ibo obo) (Some hb # q3) hst
            = map_option
                (\<lambda>(tr, r).
                   ((case flushed of None \<Rightarrow> []
                     | Some (fslice, fstart, fend) \<Rightarrow>
                         (if fend > start_time hb
                          then [Report Fatal (OutOfOrderSets fend (start_time hb))] else [])
                         @ (if throws mkf (m_maker hst) fslice
                            then [Report Fatal AlgorithmFatalError] else []))
                    @ Report Fatal AlgorithmFatalError # tr, r))
                (receive_loop (worker3 mkf ibo obo) q3
                   (hst\<lparr>m_received_count := m_received_count hst + 1, m_in_buffer := ibh,
                         m_out_buffer :=
                           ob_buffer_heartbeat obo (m_out_buffer hst)
                             \<lparr>type = kHeartbeat, start_time = start_time hb,
                              end_time = end_time hb, origin = (kTrigger, m_sourceid hst),
                              seqno = 0, objects = []\<rparr>,
                         m_maker := m2\<rparr>))
          \<and> receive_loop (worker2 mkf ibo) (Some hb # q2) hst
              = map_option
                  (\<lambda>(tr, r).
                     ((case flushed of None \<Rightarrow> []
                       | Some (fslice, fstart, fend) \<Rightarrow>
                           (if fend > start_time hb
                            then [Report Fatal (OutOfOrderSets fend (start_time hb))] else [])
                           @ (if throws mkf (m_maker hst) fslice
                              then [Report Fatal AlgorithmFatalError] else []))
                      @ Report Fatal AlgorithmFatalError # tr, r))
                  (receive_loop (worker2 mkf ibo) q2
                     (hst\<lparr>m_received_count := m_received_count hst + 1, m_in_buffer := ibh,
                           m_maker := m2\<rparr>)))"
proof (intro conjI impI; (elim conjE)?)
  show "process_slice mk time_slice m out_vec
       = ((if throws mk m time_slice then [Report Fatal AlgorithmFatalError] else []) :: 'o event list,
          maker_after mk m time_slice, out_vec @ concat (slice_outputs mk m time_slice))"
    by (rule process_slice_effects)
next
  assume a: "mk_apply mk (m_maker st) x = (m', outs, True)"
  then show "process1 mk x st = ([Report Fatal AlgorithmFatalError], st\<lparr>m_maker := m'\<rparr>)"
    by (simp add: process1_def)
  have "process (worker1 mk) x (st\<lparr>m_received_count := m_received_count st + 1\<rparr>)
          = Some ([Report Fatal AlgorithmFatalError],
                  st\<lparr>m_received_count := m_received_count st + 1, m_maker := m'\<rparr>)"
    using a by (simp add: worker1_def process1_def)
  then show "receive_loop (worker1 mk) (Some x # q1) st
              = map_option (\<lambda>(tr, r). (Report Fatal AlgorithmFatalError # tr, r))
                  (receive_loop (worker1 mk) q1
                     (st\<lparr>m_received_count := m_received_count st + 1, m_maker := m'\<rparr>))"
    by (simp del: receive_loop.simps add: receive_loop_Some map_option_case split: option.splits)
next
  assume p: "type inp = kPayload"
    "ib_buffer ibo (m_in_buffer pst) inp = (ibp, Some (pslice, slice_start, slice_end))"
    "throws mk (m_maker pst) pslice"
  then show "process3 mk ibo obo inp pst
            = map_option
                (\<lambda>(tr, r).
                   ((if m_prev_start_time pst \<noteq> 0 \<and> start_time inp < m_prev_start_time pst
                     then [Report Warning (OutOfOrderSets (m_prev_start_time pst) (start_time inp))]
                     else []) @ Report Fatal AlgorithmFatalError # tr, r))
                (buffer_and_emit obo (concat (slice_outputs mk (m_maker pst) pslice))
                   (pst\<lparr>m_prev_start_time := start_time inp, m_in_buffer := ibp,
                         m_maker := maker_after mk (m_maker pst) pslice\<rparr>))"
    by (simp add: process3_def Let_def process_slice_effects map_option_case
             split: option.splits)
  from p show "process2 mk ibo inp pst
              = (case send_out_vec (concat (slice_outputs mk (m_maker pst) pslice))
                        (pst\<lparr>m_in_buffer := ibp, m_maker := maker_after mk (m_maker pst) pslice\<rparr>) of
                   (tr, r) \<Rightarrow> (Report Fatal AlgorithmFatalError # tr, r))"
    by (simp add: process2_def process_slice_effects split: prod.splits)
next
  assume h: "type hb = kHeartbeat" "ib_flush ibo (m_in_buffer hst) = (ibh, flushed)"
    "mk_flush mkf
                (case flushed of None \<Rightarrow> m_maker hst
                 | Some (fslice, fstart, fend) \<Rightarrow> maker_after mkf (m_maker hst) fslice)
                (end_time hb) = (m2, outs2, True)"
  have "process (worker3 mkf ibo obo) hb (hst\<lparr>m_received_count := m_received_count hst + 1\<rparr>)
          = Some ((case flushed of None \<Rightarrow> []
                     | Some (fslice, fstart, fend) \<Rightarrow>
                         (if fend > start_time hb
                          then [Report Fatal (OutOfOrderSets fend (start_time hb))] else [])
                         @ (if throws mkf (m_maker hst) fslice
                            then [Report Fatal AlgorithmFatalError] else []))
                  @ [Report Fatal AlgorithmFatalError],
                  hst\<lparr>m_received_count := m_received_count hst + 1, m_in_buffer := ibh,
                        m_out_buffer :=
                          ob_buffer_heartbeat obo (m_out_buffer hst)
                            \<lparr>type = kHeartbeat, start_time = start_time hb,
                             end_time = end_time hb, origin = (kTrigger, m_sourceid hst),
                             seqno = 0, objects = []\<rparr>,
                        m_maker := m2\<rparr>)"
    using h by (cases flushed) (auto simp: worker3_def process3_def Let_def flush_slice_effects)
  then show "receive_loop (worker3 mkf ibo obo) (Some hb # q3) hst
            = map_option
                (\<lambda>(tr, r).
                   ((case flushed of None \<Rightarrow> []
                     | Some (fslice, fstart, fend) \<Rightarrow>
                         (if fend > start_time hb
                          then [Report Fatal (OutOfOrderSets fend (start_time hb))] else [])
                         @ (if throws mkf (m_maker hst) fslice
                            then [Report Fatal AlgorithmFatalError] else []))
                    @ Report Fatal AlgorithmFatalError # tr, r))
                (receive_loop (worker3 mkf ibo obo) q3
                   (hst\<lparr>m_received_count := m_received_count hst + 1, m_in_buffer := ibh,
                         m_out_buffer :=
                           ob_buffer_heartbeat obo (m_out_buffer hst)
                             \<lparr>type = kHeartbeat, start_time = start_time hb,
                              end_time = end_time hb, origin = (kTrigger, m_sourceid hst),
                              seqno = 0, objects = []\<rparr>,
                         m_maker := m2\<rparr>))"
    by (simp del: receive_loop.simps add: receive_loop_Some map_option_case split: option.splits)
  have "process (worker2 mkf ibo) hb (hst\<lparr>m_received_count := m_received_count hst + 1\<rparr>)
          = Some ((case flushed of None \<Rightarrow> []
                     | Some (fslice, fstart, fend) \<Rightarrow>
                         (if fend > start_time hb
                          then [Report Fatal (OutOfOrderSets fend (start_time hb))] else [])
                         @ (if throws mkf (m_maker hst) fslice
                            then [Report Fatal AlgorithmFatalError] else []))
                  @ [Report Fatal AlgorithmFatalError],
                  hst\<lparr>m_received_count := m_received_count hst + 1, m_in_buffer := ibh,
                        m_maker := m2\<rparr>)"
    using h by (cases flushed) (auto simp: worker2_def process2_def flush_slice_effects)
  then show "receive_loop (worker2 mkf ibo) (Some hb # q2) hst
              = map_option
                  (\<lambda>(tr, r).
                     ((case flushed of None \<Rightarrow> []
                       | Some (fslice, fstart, fend) \<Rightarrow>
                           (if fend > start_time hb
                            then [Report Fatal (OutOfOrderSets fend (start_time hb))] else [])
                           @ (if throws mkf (m_maker hst) fslice
                              then [Report Fatal AlgorithmFatalError] else []))
                      @ Report Fatal AlgorithmFatalError # tr, r))
                  (receive_loop (worker2 mkf ibo) q2
                     (hst\<lparr>m_received_count := m_received_count hst + 1, m_in_buffer := ibh,
                           m_maker := m2\<rparr>))"
    by (simp del: receive_loop.simps add: receive_loop_Some map_option_case split: option.splits)
qed

theorem algorithm_failure_contained_witness:
  "process_slice apply_throwing_maker [3, 5, 7] () []
     = ([Report Fatal AlgorithmFatalError] :: nat event list, (), [3, 5])
   \<and> (\<exists>st1. receive_loop (worker1 apply_throwing_maker) [Some 5, Some 3] stage0
          = Some ([Report Fatal AlgorithmFatalError, Sent 3], [], st1)
        \<and> m_received_count st1 = 2)
   \<and> (\<exists>st3. process3 apply_throwing_maker (TimeSliceInputBuffer id) (TimeSliceOutputBuffer id)
            (payload 100 200 [150]) (stage0\<lparr>m_in_buffer := Some (0, 100, [7, 5, 3])\<rparr>)
          = Some ([Report Fatal AlgorithmFatalError], st3)
        \<and> m_in_buffer st3 = Some (100, 200, [150]) \<and> buffered (m_out_buffer st3) = [3, 5])
   \<and> fst (process2 apply_throwing_maker (TimeSliceInputBuffer id) (payload 100 200 [150])
            (stage0\<lparr>m_in_buffer := Some (0, 100, [7, 5, 3])\<rparr>))
       = [Report Fatal AlgorithmFatalError, Sent 5, Sent 3]
   \<and> (\<exists>st4. receive_loop
            (worker3 flush_throwing_maker (TimeSliceInputBuffer id) (TimeSliceOutputBuffer id))
            [Some (heartbeat 400 450), Some (payload 0 100 [7])]
            (stage0\<lparr>m_in_buffer := Some (200, 300, [210])\<rparr>)
          = Some ([Report Fatal AlgorithmFatalError], [], st4)
        \<and> m_received_count st4 = 2 \<and> m_in_buffer st4 = Some (0, 100, [7])
        \<and> length (heartbeats (m_out_buffer st4)) = 1)
   \<and> (\<exists>st5. receive_loop (worker2 flush_throwing_maker (TimeSliceInputBuffer id))
            [Some (heartbeat 400 450), Some (payload 0 100 [7])]
            (stage0\<lparr>m_in_buffer := Some (200, 300, [210])\<rparr>)
          = Some ([Report Fatal AlgorithmFatalError], [], st5)
        \<and> m_received_count st5 = 2 \<and> m_in_buffer st5 = Some (0, 100, [7]))"
proof -
  let ?ib = "TimeSliceInputBuffer id :: (nat, nat TimeSliceInputBuffer) in_buffer_ops"
  let ?ob = "TimeSliceOutputBuffer id :: (nat, nat TimeSliceOutputBuffer) out_buffer_ops"
  let ?pst = "stage0\<lparr>m_in_buffer := Some (0, 100, [7, 5, 3])\<rparr>"
  let ?hst = "stage0\<lparr>m_in_buffer := Some (200, 300, [210])\<rparr>"
  note contained =
    algorithm_failure_contained [where mk = apply_throwing_maker and mkf = flush_throwing_maker
      and time_slice = "[3, 5, 7]" and m = "()" and out_vec = "[]"
      and st = stage0 and x = 5 and m' = "()" and outs = "[5]" and ?q1.0 = "[Some 3]"
      and inp = "payload 100 200 [150]" and ibo = ?ib and obo = ?ob and pst = ?pst
      and ibp = "Some (100, 200, [150])" and pslice = "[3, 5, 7]" and slice_start = 0
      and slice_end = 100
      and hb = "heartbeat 400 450" and hst = ?hst and ibh = None
      and flushed = "Some ([210], 200, 300)" and ?m2.0 = "()" and ?outs2.0 = "[]"
      and ?q3.0 = "[Some (payload 0 100 [7])]" and ?q2.0 = "[Some (payload 0 100 [7])]"]
  have h2: "mk_apply apply_throwing_maker (m_maker stage0) 5 = ((), [5], True)"
    by (simp add: apply_throwing_maker_def)
  have h3: "type (payload 100 200 [150]) = kPayload
            \<and> ib_buffer ?ib (m_in_buffer ?pst) (payload 100 200 [150])
                = (Some (100, 200, [150]), Some ([3, 5, 7], 0, 100))
            \<and> throws apply_throwing_maker (m_maker ?pst) [3, 5, 7]"
    by (simp add: eval_defs)
  have h4: "type (heartbeat 400 450) = kHeartbeat
            \<and> ib_flush ?ib (m_in_buffer ?hst) = (None, Some ([210], 200, 300))
            \<and> mk_flush flush_throwing_maker
                  (case Some ([210], 200, 300) of None \<Rightarrow> m_maker ?hst
                   | Some (fslice, fstart, fend) \<Rightarrow>
                       maker_after flush_throwing_maker (m_maker ?hst) fslice)
                  (end_time (heartbeat 400 450)) = ((), [], True)"
    by (simp add: eval_defs)
  note apply1 = contained [THEN conjunct2, THEN conjunct1, THEN mp, OF h2]
  note apply3 = contained [THEN conjunct2, THEN conjunct2, THEN conjunct1, THEN mp, OF h3]
  note flush3 = contained [THEN conjunct2, THEN conjunct2, THEN conjunct2, THEN mp, OF h4]
  have a: "process_slice apply_throwing_maker [3, 5, 7] () []
     = ([Report Fatal AlgorithmFatalError] :: nat event list, (), [3, 5])"
    using contained [THEN conjunct1] by (simp add: apply_throwing_maker_def)
  have b: "\<exists>st1. receive_loop (worker1 apply_throwing_maker) [Some 5, Some 3] stage0
          = Some ([Report Fatal AlgorithmFatalError, Sent 3], [], st1)
        \<and> m_received_count st1 = 2"
    using apply1 [THEN conjunct2]
    by (simp add: eval_defs send_out_vec_Nil send_out_vec_Cons)
  have c: "\<exists>st3. process3 apply_throwing_maker ?ib ?ob (payload 100 200 [150]) ?pst
          = Some ([Report Fatal AlgorithmFatalError], st3)
        \<and> m_in_buffer st3 = Some (100, 200, [150]) \<and> buffered (m_out_buffer st3) = [3, 5]"
    using apply3 [THEN conjunct1]
    by (simp add: eval_defs)
  have d: "fst (process2 apply_throwing_maker ?ib (payload 100 200 [150]) ?pst)
       = [Report Fatal AlgorithmFatalError, Sent 5, Sent 3]"
    using apply3 [THEN conjunct2]
    by (simp add: eval_defs send_out_vec_Nil send_out_vec_Cons)
  have e: "\<exists>st4. receive_loop (worker3 flush_throwing_maker ?ib ?ob)
            [Some (heartbeat 400 450), Some (payload 0 100 [7])] ?hst
          = Some ([Report Fatal AlgorithmFatalError], [], st4)
        \<and> m_received_count st4 = 2 \<and> m_in_buffer st4 = Some (0, 100, [7])
        \<and> length (heartbeats (m_out_buffer st4)) = 1"
    using flush3 [THEN conjunct1]
    by (simp add: eval_defs)
  have f: "\<exists>st5. receive_loop (worker2 flush_throwing_maker ?ib)
            [Some (heartbeat 400 450), Some (payload 0 100 [7])] ?hst
          = Some ([Report Fatal AlgorithmFatalError], [], st5)
        \<and> m_received_count st5 = 2 \<and> m_in_buffer st5 = Some (0, 100, [7])"
    using flush3 [THEN conjunct2]
    by (simp add: eval_defs send_out_vec_Nil)
  show ?thesis by (intro conjI) (rule a b c d e f)+
qed

section \<open>The loops over the output buffer end\<close>

text \<open>
  The theorems on the \<open>Set<A>\<close> to \<open>Set<B>\<close> worker above hold for every implementation
  of the two buffers and speak of the runs that return. With the output buffer of the
  description every call returns: a flush of a buffer that is not empty takes a window
  with at least one element, or a heartbeat, out of it. So do \<^verbatim>\<open>process\<close>, \<^verbatim>\<open>drain\<close> and
  the whole of \<^verbatim>\<open>do_work\<close> there, whatever the algorithm, the input buffer, the inputs
  and the downstream queue do; and so does the base worker. In the \<open>Set<A>\<close> to \<open>B\<close>
  worker the receive loop returns, the drain need not (\<open>drain2_loop_drop_None\<close>).
\<close>

lemma fold_min_in: "fold min (map f xs) (a :: nat) \<in> insert a (f ` set xs)"
proof (induction xs arbitrary: a)
  case Nil
  show ?case by simp
next
  case (Cons x xs)
  from Cons [of "min (f x) a"] show ?case by (auto simp: min_def split: if_splits)
qed

lemma tsob_next_window:
  assumes "tsob_next time_start b = NextWindow k"
  shows "\<exists>y \<in> set (buffered b). time_start y div window_time b = k"
proof (cases "buffered b")
  case Nil
  with assms show ?thesis by (simp add: tsob_next_def split: list.splits)
next
  case (Cons x xs)
  with assms have "k = fold min (map (\<lambda>y. time_start y div window_time b) xs)
                          (time_start x div window_time b)"
    by (auto simp: tsob_next_def Let_def split: list.splits if_splits)
  with fold_min_in [of "\<lambda>y. time_start y div window_time b" xs "time_start x div window_time b"]
  show ?thesis by (auto simp: Cons)
qed

lemma tsob_flush_smaller:
  assumes "\<not> tsob_empty b"
  shows "tsob_size (snd (tsob_flush time_start b)) < tsob_size b"
proof (cases "tsob_next time_start b")
  case Nothing
  with assms show ?thesis
    by (auto simp: tsob_next_def tsob_empty_def Let_def split: list.splits if_splits)
next
  case NextHeartbeat
  then have "heartbeats b \<noteq> []"
    by (auto simp: tsob_next_def Let_def split: list.splits if_splits)
  with NextHeartbeat show ?thesis by (simp add: tsob_flush_def tsob_size_def)
next
  case (NextWindow k)
  from tsob_next_window [OF this] obtain y where "y \<in> set (buffered b)"
    and "time_start y div window_time b = k" by blast
  then have "length (filter (\<lambda>y. time_start y div window_time b \<noteq> k) (buffered b))
               < length (buffered b)"
    by (intro length_filter_less [of y]) auto
  with NextWindow show ?thesis by (simp add: tsob_flush_def tsob_size_def)
qed

lemma tsob_ready_not_empty: "tsob_ready time_start b \<Longrightarrow> \<not> tsob_empty b"
  by (auto simp: tsob_ready_def tsob_next_def tsob_empty_def split: list.splits)

lemma emit_window_out_buffer:
  "m_out_buffer (snd (emit_window obo st)) = snd (ob_flush obo (m_out_buffer st))"
  by (auto simp: emit_window_def Let_def send_or_drop_def send_def
           split: prod.splits list.splits)

lemma drain_window_out_buffer:
  "m_out_buffer (snd (drain_window obo drop' st)) = snd (ob_flush obo (m_out_buffer st))"
  by (auto simp: drain_window_def Let_def send_or_drop_def send_def
           split: prod.splits list.splits)

lemma emit_windows_returns: "\<exists>r. emit_windows (TimeSliceOutputBuffer time_start) st = Some r"
proof (induction "tsob_size (m_out_buffer st)" arbitrary: st rule: less_induct)
  case less
  let ?obo = "TimeSliceOutputBuffer time_start"
  show ?case
  proof (cases "ob_ready ?obo (m_out_buffer st)")
    case False
    then show ?thesis by (subst emit_windows.simps) simp
  next
    case True
    then have "\<not> tsob_empty (m_out_buffer st)"
      by (simp add: TimeSliceOutputBuffer_def tsob_ready_not_empty)
    from tsob_flush_smaller [OF this, of time_start]
    have "tsob_size (m_out_buffer (snd (emit_window ?obo st))) < tsob_size (m_out_buffer st)"
      by (simp add: emit_window_out_buffer) (simp add: TimeSliceOutputBuffer_def)
    from less [OF this] obtain r where "emit_windows ?obo (snd (emit_window ?obo st)) = Some r" ..
    with True show ?thesis
      by (subst emit_windows.simps) (cases "emit_window ?obo st", auto split: prod.splits)
  qed
qed

lemma drain3_loop_returns:
  "\<exists>r. drain3_loop (TimeSliceOutputBuffer time_start) drop' st = Some r"
proof (induction "tsob_size (m_out_buffer st)" arbitrary: st rule: less_induct)
  case less
  let ?obo = "TimeSliceOutputBuffer time_start"
  show ?case
  proof (cases "ob_empty ?obo (m_out_buffer st)")
    case True
    then show ?thesis by (subst drain3_loop.simps) simp
  next
    case False
    then have "\<not> tsob_empty (m_out_buffer st)"
      by (simp add: TimeSliceOutputBuffer_def)
    from tsob_flush_smaller [OF this, of time_start]
    have "tsob_size (m_out_buffer (snd (drain_window ?obo drop' st))) < tsob_size (m_out_buffer st)"
      by (simp add: drain_window_out_buffer) (simp add: TimeSliceOutputBuffer_def)
    from less [OF this] obtain r
      where "drain3_loop ?obo drop' (snd (drain_window ?obo drop' st)) = Some r" ..
    with False show ?thesis
      by (subst drain3_loop.simps) (cases "drain_window ?obo drop' st", auto split: prod.splits)
  qed
qed

lemma buffer_and_emit_returns:
  "buffer_and_emit (TimeSliceOutputBuffer time_start) es st \<noteq> None"
  using emit_windows_returns [of time_start "buffer_elems (TimeSliceOutputBuffer time_start) es st"]
  by (auto simp: buffer_and_emit_def)

lemma process3_returns:
  "\<exists>r. process3 mk ibo (TimeSliceOutputBuffer time_start) inp st = Some r"
  by (cases "type inp")
     (auto simp: process3_def Let_def buffer_and_emit_returns
           split: prod.splits option.splits Option.bind_splits)

lemma drain3_loop_not_None:
  "drain3_loop (TimeSliceOutputBuffer time_start) drop' st \<noteq> None"
  using drain3_loop_returns [of time_start drop' st] by auto

lemma drain3_returns:
  "\<exists>r. drain3 mk ibo (TimeSliceOutputBuffer time_start) drop' st = Some r"
  using drain3_loop_returns [of time_start drop']
  by (auto simp: drain3_def drain3_loop_not_None
           split: prod.splits option.splits Option.bind_splits)

lemma receive_loop_returns:
  assumes "\<And>inp st. \<exists>r. process w inp st = Some r"
  shows "\<exists>r. receive_loop w q st = Some r"
proof (induction q arbitrary: st)
  case Nil
  show ?case by (simp add: receive_def)
next
  case (Cons e q)
  show ?case
  proof (cases e)
    case None
    then show ?thesis by (simp add: receive_def)
  next
    case (Some inp)
    from assms obtain tr1 st1
      where p: "process w inp (st\<lparr>m_received_count := m_received_count st + 1\<rparr>) = Some (tr1, st1)"
      by (metis surj_pair)
    from Cons [of st1] obtain tr2 q2 st2 where "receive_loop w q st1 = Some (tr2, q2, st2)"
      by (metis surj_pair)
    with p Some show ?thesis
      by (simp del: receive_loop.simps add: receive_loop_Some)
  qed
qed

lemma do_work_returns:
  assumes "\<And>inp st. \<exists>r. process w inp st = Some r"
    and "\<And>st. \<exists>r. drain w True st = Some r"
  shows "\<exists>r. do_work w flags q st = Some r"
proof (induction flags arbitrary: q st)
  case Nil
  from assms(2) [of st] show ?case by (auto simp: leave_work_def)
next
  case (Cons running flags)
  show ?case
  proof (cases running)
    case False
    with assms(2) [of st] show ?thesis by (auto simp: leave_work_def)
  next
    case True
    from receive_loop_returns [of w q st, OF assms(1)] obtain tr1 q1 st1
      where r: "receive_loop w q st = Some (tr1, q1, st1)" by (metis surj_pair)
    from Cons [of q1 st1] obtain r' where "do_work w flags q1 st1 = Some r'" ..
    with r True show ?thesis by (auto simp del: receive_loop.simps split: prod.splits)
  qed
qed

lemma do_work3_returns:
  "\<exists>r. do_work (worker3 mk ibo (TimeSliceOutputBuffer time_start)) flags q st = Some r"
  by (rule do_work_returns) (simp_all only: worker3_def worker.simps process3_returns drain3_returns)

lemma do_work1_returns: "\<exists>r. do_work (worker1 mk) flags q st = Some r"
  by (rule do_work_returns) (simp_all add: worker1_def drain1_def)

lemma receive_loop2_returns: "\<exists>r. receive_loop (worker2 mk ibo) q st = Some r"
  by (rule receive_loop_returns) (simp add: worker2_def)

section \<open>When the drain of the \<open>Set<A>\<close> to \<open>B\<close> worker returns\<close>

text \<open>
  \<^verbatim>\<open>drain(false)\<close> always returns. \<^verbatim>\<open>drain(true)\<close> returns exactly when the input buffer
  holds nothing or the algorithm produces no output for the flushed slice.
\<close>

lemma drain2_loop_Nil: "drain2_loop drop' [] st = Some ([], st)"
  by (subst drain2_loop.simps) simp

lemma drain2_loop_keep_returns: "\<exists>r. drain2_loop False out_vec st = Some r"
proof (induction out_vec arbitrary: st rule: rev_induct)
  case Nil
  show ?case by (simp add: drain2_loop_Nil)
next
  case (snoc out out_vec)
  obtain tr1 st1 where s: "send_or_drop out st = (tr1, st1)" by force
  from snoc [of st1] obtain r where "drain2_loop False out_vec st1 = Some r" ..
  with s show ?case
    by (subst drain2_loop.simps) (auto split: prod.splits)
qed

lemma drain2_drop_None_iff:
  fixes mk :: "('a, 'b, 'm) maker"
  shows "drain2 mk ibo True st = None \<longleftrightarrow>
     (\<exists>ib' time_slice slice_start slice_end.
        ib_flush ibo (m_in_buffer st) = (ib', Some (time_slice, slice_start, slice_end))
        \<and> concat (slice_outputs mk (m_maker st) time_slice) \<noteq> [])"
proof (cases "ib_flush ibo (m_in_buffer st)")
  case (Pair ib' flushed)
  show ?thesis
  proof (cases flushed)
    case None
    with Pair show ?thesis by (simp add: drain2_def)
  next
    case (Some sl)
    obtain time_slice slice_start slice_end where sl: "sl = (time_slice, slice_start, slice_end)"
      by (cases sl)
    obtain tr1 :: "'b event list" and m' out_vec
      where p: "process_slice mk time_slice (m_maker st) [] = (tr1, m', out_vec)"
      by (cases "process_slice mk time_slice (m_maker st) [] :: 'b event list \<times> 'm \<times> 'b list")
    from process_slice_outputs [OF p]
    have o: "concat (slice_outputs mk (m_maker st) time_slice) = out_vec" by simp
    have rhs: "(\<exists>ib' time_slice slice_start slice_end.
        ib_flush ibo (m_in_buffer st) = (ib', Some (time_slice, slice_start, slice_end))
        \<and> concat (slice_outputs mk (m_maker st) time_slice) \<noteq> []) \<longleftrightarrow> out_vec \<noteq> []"
      using Pair Some sl o by (auto simp del: concat_eq_Nil_conv)
    have lhs: "drain2 mk ibo True st = None \<longleftrightarrow> out_vec \<noteq> []"
      using Pair Some sl p by (cases "out_vec = []") (simp_all add: drain2_def drain2_loop_Nil drain2_loop_drop_None)
    show ?thesis unfolding lhs rhs ..
  qed
qed

end
